theory Spec2Isabelle
  imports Main
begin

section \<open>AnnoyScript: characters and strings\<close>

text \<open>
  A Python \<open>str\<close> is a sequence of Unicode code points.  A character is modelled by its
  code point, a string by the list of its code points.  \<open>ord\<close> gives the code point of an
  ASCII character, \<open>py_str\<close> the Python string of an ASCII literal.
\<close>

type_synonym pychar = nat

definition ord :: "char \<Rightarrow> pychar" where
  "ord c = of_char c"

definition py_str :: "string \<Rightarrow> pychar list" where
  "py_str s = map ord s"

text \<open>
  \<open>str.isspace\<close> on one character: the code points Python classifies as whitespace
  (tab to carriage return, the four information separators, space, NEL, NBSP, and the
  Unicode space separators).
\<close>

definition isspace :: "pychar \<Rightarrow> bool" where
  "isspace c \<longleftrightarrow>
     (9 \<le> c \<and> c \<le> 13) \<or> (28 \<le> c \<and> c \<le> 32) \<or> c = 133 \<or> c = 160 \<or> c = 5760 \<or>
     (8192 \<le> c \<and> c \<le> 8202) \<or> c = 8232 \<or> c = 8233 \<or> c = 8239 \<or> c = 8287 \<or>
     c = 12288"

section \<open>Comment preprocessing\<close>

text \<open>
  \<open>str.splitlines\<close>: the line boundaries of a Python string are line feed, vertical tab,
  form feed, carriage return (and carriage return followed by line feed, as one boundary),
  the file, group and record separators, NEL, and the Unicode line and paragraph
  separators.  The lines are returned without their boundaries, and a boundary at the very
  end opens no further line.
\<close>

definition newline :: pychar where
  "newline = 10"

definition is_line_boundary :: "pychar \<Rightarrow> bool" where
  "is_line_boundary c \<longleftrightarrow>
     c = 10 \<or> c = 11 \<or> c = 12 \<or> c = 13 \<or> c = 28 \<or> c = 29 \<or> c = 30 \<or> c = 133 \<or>
     c = 8232 \<or> c = 8233"

fun splitlines_from :: "pychar list \<Rightarrow> pychar list \<Rightarrow> pychar list list" where
  "splitlines_from [] line = (if line = [] then [] else [line])"
| "splitlines_from [c] line =
     (if is_line_boundary c then [line] else [line @ [c]])"
| "splitlines_from (c # c' # cs) line =
     (if c = 13 \<and> c' = 10 then line # splitlines_from cs []
      else if is_line_boundary c then line # splitlines_from (c' # cs) []
      else splitlines_from (c' # cs) (line @ [c]))"

definition splitlines :: "pychar list \<Rightarrow> pychar list list" where
  "splitlines source = splitlines_from source []"

text \<open>\<open>str.find\<close> of one character: the lowest index where it occurs, or \<open>-1\<close>.\<close>

fun str_find :: "pychar list \<Rightarrow> pychar \<Rightarrow> int" where
  "str_find [] c = - 1"
| "str_find (x # xs) c =
     (if x = c then 0
      else (let r = str_find xs c in if r = - 1 then - 1 else r + 1))"

text \<open>\<open>"\n".join\<close>.\<close>

fun join_newline :: "pychar list list \<Rightarrow> pychar list" where
  "join_newline [] = []"
| "join_newline [line] = line"
| "join_newline (line # lines) = line @ [newline] @ join_newline lines"

text \<open>The body of the \<open>for line in lines\<close> loop of \<open>strip_comments\<close>: the line that is
  appended to \<open>new_lines\<close>.\<close>

definition strip_line :: "pychar list \<Rightarrow> pychar list" where
  "strip_line line =
     (let semicolon_index = str_find line (ord CHR '';'')
      in if semicolon_index \<noteq> - 1 then take (nat semicolon_index) line else line)"

definition strip_comments :: "pychar list \<Rightarrow> pychar list" where
  "strip_comments source = join_newline (map strip_line (splitlines source))"

section \<open>Data structures of the parser\<close>

datatype kind = Normal | Conditional

datatype block = Block (block_type: kind) (items: "item list")
  and item = Literal "pychar list" | Nested block

section \<open>The parser\<close>

text \<open>Every \<open>raise\<close> of the parser, with the values its message reports.\<close>

datatype parse_error =
    UnexpectedCharacter pychar nat
  | ExpectedOpenParen nat
  | UnexpectedEndOfInput nat
  | InvalidToken nat pychar
  | MissingClosingToken "pychar list" nat

text \<open>\<open>if literal_buffer: items.append(literal_buffer)\<close>.\<close>

definition flush :: "item list \<Rightarrow> pychar list \<Rightarrow> item list" where
  "flush its literal_buffer =
     (if literal_buffer \<noteq> [] then its @ [Literal literal_buffer] else its)"

text \<open>
  \<open>parse_block\<close> up to its \<open>while\<close> loop, and \<open>parse_body\<close>, that loop, with the local
  variables it changes (\<open>index\<close>, \<open>items\<close>, \<open>literal_buffer\<close>) as arguments.  The error
  after the loop reports the value \<open>index\<close> has when the loop ends.
\<close>

function parse_block :: "pychar list \<Rightarrow> nat \<Rightarrow> parse_error + (block \<times> nat)"
  and parse_body ::
    "pychar list \<Rightarrow> kind \<Rightarrow> pychar list \<Rightarrow> nat \<Rightarrow> item list \<Rightarrow> pychar list \<Rightarrow>
     parse_error + (block \<times> nat)"
  where
  "parse_block source index =
     (if index \<ge> length source \<or> source ! index \<noteq> ord CHR ''(''
      then Inl (ExpectedOpenParen index)
      else if index + 1 \<ge> length source then Inl (UnexpectedEndOfInput (index + 1))
      else if source ! (index + 1) = ord CHR ''<''
      then parse_body source Normal (py_str ''>)'') (index + 2) [] []
      else if source ! (index + 1) = ord CHR ''?''
      then parse_body source Conditional (py_str ''?)'') (index + 2) [] []
      else Inl (InvalidToken (index + 1) (source ! (index + 1))))"
| "parse_body source bt closing_token index its literal_buffer =
     (if index < length source then
        (if take 2 (drop index source) = closing_token
         then Inr (Block bt (flush its literal_buffer), index + 2)
         else if source ! index = ord CHR ''('' \<and> index + 1 < length source \<and>
                 (source ! (index + 1) = ord CHR ''<'' \<or> source ! (index + 1) = ord CHR ''?'')
         then (case parse_block source index of
                 Inl e \<Rightarrow> Inl e
               | Inr (nested_block, index') \<Rightarrow>
                   parse_body source bt closing_token index'
                     (flush its literal_buffer @ [Nested nested_block]) [])
         else parse_body source bt closing_token (index + 1) its
                (literal_buffer @ [source ! index]))
      else Inl (MissingClosingToken closing_token index))"
  by pat_completeness auto

text \<open>A block that parses ends after the index where it starts; with this the nested call
  in the loop makes progress.\<close>

lemma parse_advances_dom:
  "parse_block_parse_body_dom (Inl (source, index)) \<Longrightarrow>
     parse_block source index = Inr (b, j) \<Longrightarrow> index < j"
  "parse_block_parse_body_dom (Inr (source, bt, closing_token, index, its, literal_buffer)) \<Longrightarrow>
     parse_body source bt closing_token index its literal_buffer = Inr (b, j) \<Longrightarrow> index < j"
proof (induction source index and source bt closing_token index its literal_buffer
       arbitrary: b j and b j rule: parse_block_parse_body.pinduct)
  case (1 source index)
  note eq = parse_block.psimps [OF "1.hyps"]
  from "1.prems" eq have ok: "\<not> (index \<ge> length source \<or> source ! index \<noteq> ord CHR ''('')"
    and ok2: "\<not> index + 1 \<ge> length source"
    by (auto split: if_splits)
  show ?case
  proof (cases "source ! (index + 1) = ord CHR ''<''")
    case True
    with "1.prems" eq ok ok2
    have "parse_body source Normal (py_str ''>)'') (index + 2) [] [] = Inr (b, j)" by simp
    from "1.IH"(1) [OF ok ok2 True this] show ?thesis by simp
  next
    case False
    with "1.prems" eq ok ok2 have q: "source ! (index + 1) = ord CHR ''?''"
      by (auto split: if_splits)
    with False "1.prems" eq ok ok2
    have "parse_body source Conditional (py_str ''?)'') (index + 2) [] [] = Inr (b, j)" by simp
    from "1.IH"(2) [OF ok ok2 False q this] show ?thesis by simp
  qed
next
  case (2 source bt closing_token index its literal_buffer)
  note eq = parse_body.psimps [OF "2.hyps"]
  show ?case
  proof (cases "index < length source")
    case False
    with "2.prems" eq show ?thesis by simp
  next
    case lt: True
    show ?thesis
    proof (cases "take 2 (drop index source) = closing_token")
      case True
      with lt "2.prems" eq show ?thesis by simp
    next
      case nc: False
      show ?thesis
      proof (cases "source ! index = ord CHR ''('' \<and> index + 1 < length source \<and>
                 (source ! (index + 1) = ord CHR ''<'' \<or> source ! (index + 1) = ord CHR ''?'')")
        case True
        with lt nc "2.prems" eq obtain nb i'
          where pb: "parse_block source index = Inr (nb, i')"
            and rest: "parse_body source bt closing_token i'
                         (flush its literal_buffer @ [Nested nb]) [] = Inr (b, j)"
          by (auto split: sum.splits)
        from "2.IH"(1) [OF lt nc True pb] have "index < i'" .
        moreover from "2.IH"(2) [OF lt nc True pb refl rest] have "i' < j" .
        ultimately show ?thesis by simp
      next
        case False
        from "2.prems" [unfolded eq]
        have "parse_body source bt closing_token (index + 1) its
                (literal_buffer @ [source ! index]) = Inr (b, j)"
          by (simp only: lt nc False if_True if_False)
        from "2.IH"(3) [OF lt nc False this] show ?thesis by simp
      qed
    qed
  qed
qed

termination parse_block
proof (relation "measure (\<lambda>x. case x of
            Inl (source, index) \<Rightarrow> 2 * (length source - index)
          | Inr (source, bt, closing_token, index, its, literal_buffer) \<Rightarrow>
              2 * (length source - index) + 1)", goal_cases)
  case 1
  show ?case by simp
next
  case (2 source index)
  then have "index + 2 \<le> length source" by simp
  then show ?case by simp
next
  case (3 source index)
  then have "index + 2 \<le> length source" by simp
  then show ?case by simp
next
  case (4 source bt closing_token index its literal_buffer)
  then show ?case by simp
next
  case (5 source bt closing_token index its literal_buffer x2 x y)
  then have "parse_block_parse_body_dom (Inl (source, index))"
    and "parse_block source index = Inr (x, y)" by simp_all
  then have "index < y" by (rule parse_advances_dom(1))
  with 5(1) have "length source - y < length source - index" by simp
  then show ?case by simp
next
  case (6 source bt closing_token index its literal_buffer)
  then have "length source - (index + 1) < length source - index" by simp
  then show ?case by simp
qed

declare parse_block.simps [simp del] parse_body.simps [simp del]

lemma parse_advances:
  "parse_block source index = Inr (b, j) \<Longrightarrow> index < j"
  "parse_body source bt closing_token index its literal_buffer = Inr (b, j) \<Longrightarrow> index < j"
proof (induction source index and source bt closing_token index its literal_buffer
       arbitrary: b j and b j rule: parse_block_parse_body.induct)
  case (1 source index)
  note eq = parse_block.simps [of source index]
  from "1.prems" eq have ok: "\<not> (index \<ge> length source \<or> source ! index \<noteq> ord CHR ''('')"
    and ok2: "\<not> index + 1 \<ge> length source"
    by (auto split: if_splits)
  show ?case
  proof (cases "source ! (index + 1) = ord CHR ''<''")
    case True
    with "1.prems" eq ok ok2
    have "parse_body source Normal (py_str ''>)'') (index + 2) [] [] = Inr (b, j)" by simp
    from "1.IH"(1) [OF ok ok2 True this] show ?thesis by simp
  next
    case False
    with "1.prems" eq ok ok2 have q: "source ! (index + 1) = ord CHR ''?''"
      by (auto split: if_splits)
    with False "1.prems" eq ok ok2
    have "parse_body source Conditional (py_str ''?)'') (index + 2) [] [] = Inr (b, j)" by simp
    from "1.IH"(2) [OF ok ok2 False q this] show ?thesis by simp
  qed
next
  case (2 source bt closing_token index its literal_buffer)
  note eq = parse_body.simps [of source bt closing_token index its literal_buffer]
  show ?case
  proof (cases "index < length source")
    case False
    with "2.prems" eq show ?thesis by simp
  next
    case lt: True
    show ?thesis
    proof (cases "take 2 (drop index source) = closing_token")
      case True
      with lt "2.prems" eq show ?thesis by simp
    next
      case nc: False
      show ?thesis
      proof (cases "source ! index = ord CHR ''('' \<and> index + 1 < length source \<and>
                 (source ! (index + 1) = ord CHR ''<'' \<or> source ! (index + 1) = ord CHR ''?'')")
        case True
        with lt nc "2.prems" eq obtain nb i'
          where pb: "parse_block source index = Inr (nb, i')"
            and rest: "parse_body source bt closing_token i'
                         (flush its literal_buffer @ [Nested nb]) [] = Inr (b, j)"
          by (auto split: sum.splits)
        from "2.IH"(1) [OF lt nc True pb] have "index < i'" .
        moreover from "2.IH"(2) [OF lt nc True pb refl rest] have "i' < j" .
        ultimately show ?thesis by simp
      next
        case False
        from "2.prems" [unfolded eq]
        have "parse_body source bt closing_token (index + 1) its
                (literal_buffer @ [source ! index]) = Inr (b, j)"
          by (simp only: lt nc False if_True if_False)
        from "2.IH"(3) [OF lt nc False this] show ?thesis by simp
      qed
    qed
  qed
qed

text \<open>The \<open>while index < len(source)\<close> loop of \<open>parse_program\<close>.\<close>

function parse_program_loop ::
  "pychar list \<Rightarrow> nat \<Rightarrow> block list \<Rightarrow> parse_error + block list" where
  "parse_program_loop source index blocks =
     (if index < length source then
        (if isspace (source ! index) then parse_program_loop source (index + 1) blocks
         else if source ! index = ord CHR ''('' then
           (case parse_block source index of
              Inl e \<Rightarrow> Inl e
            | Inr (block, index') \<Rightarrow> parse_program_loop source index' (blocks @ [block]))
         else Inl (UnexpectedCharacter (source ! index) index))
      else Inr blocks)"
  by pat_completeness auto
termination
proof (relation "measure (\<lambda>(source, index, blocks). length source - index)", goal_cases)
  case 1
  show ?case by simp
next
  case (2 source index blocks)
  then show ?case by simp
next
  case (3 source index blocks x2 x y)
  then have "parse_block source index = Inr (x, y)" by simp
  then have "index < y" by (rule parse_advances(1))
  with 3(1) show ?case by simp
qed

declare parse_program_loop.simps [simp del]

definition parse_program :: "pychar list \<Rightarrow> parse_error + block list" where
  "parse_program source = parse_program_loop source 0 []"

section \<open>The interpreter\<close>

subsection \<open>Machine state and errors\<close>

text \<open>
  The fields of \<open>AnnoyInterpreter\<close>, together with the two streams the interpreter
  reads and writes: the characters still unread on standard input and the characters
  written to standard output so far.
\<close>

record machine =
  tape :: "int list"
  pointer :: int
  instruction_counter :: nat
  stdin :: "pychar list"
  stdout :: "pychar list"

definition init_machine :: "pychar list \<Rightarrow> machine" where
  "init_machine inp =
     \<lparr>tape = replicate 128 0, pointer = 0, instruction_counter = 0,
      stdin = inp, stdout = []\<rparr>"

text \<open>
  Every \<open>raise\<close> of the interpreter is a value.  A failed run keeps the machine as it
  was when the exception was raised (the output written so far stays written).
  \<open>IndexError\<close> is what Python raises for a tape access out of range.
\<close>

datatype runtime_error =
    DisplayOfDismay int int
  | InputError
  | UnknownOperation pychar nat
  | IndexError

type_synonym 'a result = "(runtime_error \<times> machine) + 'a"

text \<open>Python list indexing: \<open>-len \<le> i < 0\<close> counts from the end, anything else out of
  range raises.\<close>

definition tape_index :: "int list \<Rightarrow> int \<Rightarrow> nat option" where
  "tape_index t i =
     (let n = int (length t)
      in if 0 \<le> i \<and> i < n then Some (nat i)
         else if - n \<le> i \<and> i < 0 then Some (nat (i + n))
         else None)"

text \<open>\<open>self.tape[self.pointer]\<close> read, and \<open>self.tape[self.pointer] = v\<close>.\<close>

definition cell_get :: "machine \<Rightarrow> int result" where
  "cell_get m =
     (case tape_index (tape m) (pointer m) of
        None \<Rightarrow> Inl (IndexError, m)
      | Some k \<Rightarrow> Inr (tape m ! k))"

definition cell_set :: "machine \<Rightarrow> int \<Rightarrow> machine result" where
  "cell_set m v =
     (case tape_index (tape m) (pointer m) of
        None \<Rightarrow> Inl (IndexError, m)
      | Some k \<Rightarrow> Inr (m\<lparr>tape := (tape m)[k := v]\<rparr>))"

subsection \<open>Pointer movement\<close>

definition apply_pointer_movement :: "int \<Rightarrow> machine \<Rightarrow> machine" where
  "apply_pointer_movement override m =
     (if override \<noteq> 0 then m\<lparr>pointer := (pointer m + override) mod 128\<rparr>
      else if instruction_counter m mod 2 = 1 then m\<lparr>pointer := (pointer m - 1) mod 128\<rparr>
      else m\<lparr>pointer := (pointer m + 1) mod 128\<rparr>)"

subsection \<open>Literals\<close>

text \<open>
  The \<open>for k in range(1, count + 1)\<close> loop of \<open>execute_literal\<close>, which accumulates the
  effect of a run of \<open>count\<close> equal characters \<open>ch\<close> (\<open>+\<close> or \<open>-\<close>).
\<close>

definition run_effect :: "pychar \<Rightarrow> nat \<Rightarrow> nat \<Rightarrow> int" where
  "run_effect ch depth count =
     foldl (\<lambda>effect k.
              if ch = ord CHR ''+''
              then effect + (if depth mod 2 = 0 then int k else - int k)
              else effect - (if depth mod 2 = 0 then int k else - int k))
           0 [1..<count + 1]"

text \<open>
  The \<open>while i < len(literal)\<close> loop, on the part of the literal from index \<open>i\<close> on.
  For a run, \<open>takeWhile\<close> is the inner \<open>while\<close> loop that counts the characters equal to
  \<open>ch\<close> after the first, and \<open>dropWhile\<close> is the literal from index \<open>j\<close> on.
\<close>

function literal_loop ::
  "pychar list \<Rightarrow> nat \<Rightarrow> machine \<Rightarrow> int \<Rightarrow> (machine \<times> int) result" where
  "literal_loop [] depth m pointer_override = Inr (m, pointer_override)"
| "literal_loop (ch # rest) depth m pointer_override =
     (if ch = ord CHR ''+'' \<or> ch = ord CHR ''-'' then
        (let count = 1 + length (takeWhile (\<lambda>c. c = ch) rest);
             effect = run_effect ch depth count
         in case cell_get m of
              Inl e \<Rightarrow> Inl e
            | Inr v \<Rightarrow>
               (case cell_set m ((v + effect) mod 256) of
                  Inl e \<Rightarrow> Inl e
                | Inr m' \<Rightarrow>
                    literal_loop (dropWhile (\<lambda>c. c = ch) rest) depth m' pointer_override))
      else if ch = ord CHR ''^'' \<or> ch = ord CHR ''v'' then
        (if ch = ord CHR ''^''
         then literal_loop rest depth m
                (pointer_override + (if depth mod 2 = 0 then 1 else - 1))
         else literal_loop rest depth m
                (pointer_override + (if depth mod 2 = 0 then - 1 else 1)))
      else if ch = ord CHR ''.'' then
        (case cell_get m of
           Inl e \<Rightarrow> Inl e
         | Inr v \<Rightarrow>
            if v < 32 \<or> v > 126 then Inl (DisplayOfDismay (pointer m) v, m)
            else literal_loop rest depth (m\<lparr>stdout := stdout m @ [nat v]\<rparr>)
                   pointer_override)
      else if ch = ord CHR '','' then
        (case stdin m of
           [] \<Rightarrow> Inl (InputError, m)
         | inp # unread \<Rightarrow>
            (case cell_set (m\<lparr>stdin := unread\<rparr>) (int inp mod 256) of
               Inl e \<Rightarrow> Inl e
             | Inr m' \<Rightarrow> literal_loop rest depth m' pointer_override))
      else if ch = ord CHR ''#'' then
        (case cell_set m 0 of
           Inl e \<Rightarrow> Inl e
         | Inr m' \<Rightarrow> literal_loop rest depth m' pointer_override)
      else if isspace ch then literal_loop rest depth m pointer_override
      else Inl (UnknownOperation ch depth, m))"
  by pat_completeness auto
termination
  by (relation "measure (\<lambda>(literal, depth, m, pointer_override). length literal)")
     (auto simp: length_dropWhile_le less_Suc_eq_le)

definition execute_literal :: "pychar list \<Rightarrow> nat \<Rightarrow> machine \<Rightarrow> (machine \<times> int) result" where
  "execute_literal literal depth m = literal_loop literal depth m 0"

subsection \<open>Blocks\<close>

text \<open>
  The end of \<open>execute_block\<close> after the loop over the items: count the block as one
  instruction, then move the pointer with the block's own override.
\<close>

definition finish_block :: "(machine \<times> int) result \<Rightarrow> machine result" where
  "finish_block r =
     (case r of
        Inl e \<Rightarrow> Inl e
      | Inr (m, block_pointer_override) \<Rightarrow>
          Inr (apply_pointer_movement block_pointer_override
                 (m\<lparr>instruction_counter := instruction_counter m + 1\<rparr>)))"

text \<open>
  \<open>execute_items\<close> is the \<open>for item in block.items\<close> loop with its accumulator
  \<open>block_pointer_override\<close>.  An item is a string or a \<open>Block\<close> by its type, so the
  source's last branch (unknown item type) has no counterpart.
\<close>

fun execute_block :: "block \<Rightarrow> nat \<Rightarrow> machine \<Rightarrow> machine result"
  and execute_items :: "item list \<Rightarrow> nat \<Rightarrow> machine \<Rightarrow> int \<Rightarrow> (machine \<times> int) result"
  where
  "execute_block (Block bt its) depth m =
     (if bt = Conditional then
        (case cell_get m of
           Inl e \<Rightarrow> Inl e
         | Inr v \<Rightarrow>
            if v = 0
            then Inr (apply_pointer_movement 0
                        (m\<lparr>instruction_counter := instruction_counter m + 1\<rparr>))
            else finish_block (execute_items its depth m 0))
      else finish_block (execute_items its depth m 0))"
| "execute_items [] depth m block_pointer_override = Inr (m, block_pointer_override)"
| "execute_items (Literal literal # its) depth m block_pointer_override =
     (case execute_literal literal depth m of
        Inl e \<Rightarrow> Inl e
      | Inr (m', override) \<Rightarrow>
          execute_items its depth m' (block_pointer_override + override))"
| "execute_items (Nested b # its) depth m block_pointer_override =
     (case execute_block b (depth + 1) m of
        Inl e \<Rightarrow> Inl e
      | Inr m' \<Rightarrow> execute_items its depth m' block_pointer_override)"

text \<open>\<open>run\<close>: each top-level block in sequence, at depth 0.\<close>

fun run_blocks :: "block list \<Rightarrow> machine \<Rightarrow> machine result" where
  "run_blocks [] m = Inr m"
| "run_blocks (b # bs) m =
     (case execute_block b 0 m of
        Inl e \<Rightarrow> Inl e
      | Inr m' \<Rightarrow> run_blocks bs m')"

definition run :: "block list \<Rightarrow> pychar list \<Rightarrow> machine result" where
  "run blocks inp = run_blocks blocks (init_machine inp)"

section \<open>Notions used to state the properties\<close>

text \<open>The triangular sum \<open>S = N(N+1)/2\<close> of a run of length \<open>N\<close>.\<close>

definition triangular :: "nat \<Rightarrow> int" where
  "triangular n = int (n * (n + 1) div 2)"

text \<open>
  Cutting a literal into \<open>xs\<close> and \<open>ys\<close> does not cut a run of \<open>+\<close> or \<open>-\<close> in two:
  the last character of \<open>xs\<close> and the first of \<open>ys\<close> are not the same run character.
\<close>

definition no_cut :: "pychar list \<Rightarrow> pychar list \<Rightarrow> bool" where
  "no_cut xs ys \<longleftrightarrow>
     xs = [] \<or> ys = [] \<or> last xs \<noteq> hd ys \<or>
     (last xs \<noteq> ord CHR ''+'' \<and> last xs \<noteq> ord CHR ''-'')"

text \<open>Going on with the loop over \<open>ys\<close> from the result of an earlier part of the literal.\<close>

definition then_loop ::
  "(machine \<times> int) result \<Rightarrow> pychar list \<Rightarrow> nat \<Rightarrow> (machine \<times> int) result" where
  "then_loop r ys depth =
     (case r of Inl e \<Rightarrow> Inl e | Inr (m, ov) \<Rightarrow> literal_loop ys depth m ov)"

text \<open>
  The invariant of the machine state: the tape keeps its 128 cells, every cell is in
  \<open>[0,255]\<close> and the pointer is in \<open>[0,127]\<close>.
\<close>

definition machine_ok :: "machine \<Rightarrow> bool" where
  "machine_ok m \<longleftrightarrow>
     length (tape m) = 128 \<and> (\<forall>c \<in> set (tape m). 0 \<le> c \<and> c \<le> 255) \<and>
     0 \<le> pointer m \<and> pointer m \<le> 127"

text \<open>The machine after an operation, whether it returned or raised.\<close>

definition state_of :: "machine result \<Rightarrow> machine" where
  "state_of r = (case r of Inl (e, m) \<Rightarrow> m | Inr m \<Rightarrow> m)"

definition state_of_literal :: "(machine \<times> int) result \<Rightarrow> machine" where
  "state_of_literal r = (case r of Inl (e, m) \<Rightarrow> m | Inr (m, override) \<Rightarrow> m)"

text \<open>
  The override one character of a literal contributes at a depth, in the words of the
  specification: \<open>^\<close> gives +1 at even depth and -1 at odd depth, \<open>v\<close> the opposite, any
  other character nothing.  \<open>literal_override\<close> is the sum over a literal and
  \<open>direct_override\<close> the sum over the literals that are direct items of a block.
\<close>

definition char_override :: "pychar \<Rightarrow> nat \<Rightarrow> int" where
  "char_override c depth =
     (if c = ord CHR ''^'' then (if depth mod 2 = 0 then 1 else - 1)
      else if c = ord CHR ''v'' then (if depth mod 2 = 0 then - 1 else 1)
      else 0)"

definition literal_override :: "pychar list \<Rightarrow> nat \<Rightarrow> int" where
  "literal_override literal depth = (\<Sum>c\<leftarrow>literal. char_override c depth)"

fun direct_override :: "item list \<Rightarrow> nat \<Rightarrow> int" where
  "direct_override [] depth = 0"
| "direct_override (Literal literal # its) depth =
     literal_override literal depth + direct_override its depth"
| "direct_override (Nested b # its) depth = direct_override its depth"

text \<open>
  The number of \<open>execute_block\<close> calls made while a block is executed from a state: the
  block itself, and the blocks nested in it that are reached.  The items after one that
  raises are not reached.  \<open>run_visited\<close> counts the calls of a whole run.
\<close>

fun blocks_visited :: "block \<Rightarrow> nat \<Rightarrow> machine \<Rightarrow> nat"
  and items_visited :: "item list \<Rightarrow> nat \<Rightarrow> machine \<Rightarrow> nat" where
  "blocks_visited (Block bt its) depth m =
     (if bt = Conditional then
        (case cell_get m of
           Inl e \<Rightarrow> 1
         | Inr v \<Rightarrow> if v = 0 then 1 else 1 + items_visited its depth m)
      else 1 + items_visited its depth m)"
| "items_visited [] depth m = 0"
| "items_visited (Literal literal # its) depth m =
     (case execute_literal literal depth m of
        Inl e \<Rightarrow> 0
      | Inr (m', override) \<Rightarrow> items_visited its depth m')"
| "items_visited (Nested b # its) depth m =
     blocks_visited b (depth + 1) m +
     (case execute_block b (depth + 1) m of
        Inl e \<Rightarrow> 0
      | Inr m' \<Rightarrow> items_visited its depth m')"

fun run_visited :: "block list \<Rightarrow> machine \<Rightarrow> nat" where
  "run_visited [] m = 0"
| "run_visited (b # bs) m =
     blocks_visited b 0 m +
     (case execute_block b 0 m of
        Inl e \<Rightarrow> 0
      | Inr m' \<Rightarrow> run_visited bs m')"

text \<open>The number of \<open>Block\<close> nodes of a block tree.\<close>

fun block_nodes :: "block \<Rightarrow> nat" and item_nodes :: "item list \<Rightarrow> nat" where
  "block_nodes (Block bt its) = 1 + item_nodes its"
| "item_nodes [] = 0"
| "item_nodes (Literal literal # its) = item_nodes its"
| "item_nodes (Nested b # its) = block_nodes b + item_nodes its"

text \<open>Two programs used as examples.\<close>

definition visit_example :: "block list" where
  "visit_example =
     [Block Normal
        [Literal (py_str ''+''),
         Nested (Block Conditional [Nested (Block Normal [])]),
         Literal (py_str ''-''),
         Nested (Block Conditional [Nested (Block Normal [])])]]"

definition override_example :: block where
  "override_example =
     Block Normal
       [Literal (py_str ''^^''),
        Nested (Block Normal [Literal (py_str ''vvv'')]),
        Literal (py_str ''^'')]"

text \<open>
  A literal with its whitespace characters removed, and the literals in which whitespace
  stands between two equal run characters: a \<open>+\<close> (or \<open>-\<close>), one or more whitespace
  characters, and the same character again.
\<close>

definition strip_whitespace :: "pychar list \<Rightarrow> pychar list" where
  "strip_whitespace literal = filter (\<lambda>c. \<not> isspace c) literal"

fun splits_run :: "pychar list \<Rightarrow> bool" where
  "splits_run [] = False"
| "splits_run (c # cs) =
     (((c = ord CHR ''+'' \<or> c = ord CHR ''-'') \<and> cs \<noteq> [] \<and> isspace (hd cs) \<and>
       (case dropWhile isspace cs of [] \<Rightarrow> False | x # xs \<Rightarrow> x = c))
      \<or> splits_run cs)"

text \<open>
  A line with everything from its first semicolon through its end removed: the longest
  prefix of the line without a semicolon.
\<close>

definition cut_comment :: "pychar list \<Rightarrow> pychar list" where
  "cut_comment line = takeWhile (\<lambda>c. c \<noteq> ord CHR '';'') line"




section \<open>Literals: runs of \<open>+\<close> and \<open>-\<close>\<close>

lemma triangular_Suc: "triangular (Suc n) = triangular n + int (Suc n)"
proof -
  have "Suc n * (Suc n + 1) = n * (n + 1) + 2 * Suc n" by simp
  then have "Suc n * (Suc n + 1) div 2 = n * (n + 1) div 2 + Suc n"
    by (metis div_mult_self4 add.commute zero_neq_numeral)
  then show ?thesis unfolding triangular_def by (metis of_nat_add)
qed

lemma run_effect_Suc:
  "run_effect ch depth (Suc n) =
     (if ch = ord CHR ''+''
      then run_effect ch depth n + (if depth mod 2 = 0 then int (Suc n) else - int (Suc n))
      else run_effect ch depth n - (if depth mod 2 = 0 then int (Suc n) else - int (Suc n)))"
  by (simp add: run_effect_def)

lemma run_effect_triangular:
  "run_effect ch depth n =
     (if (ch = ord CHR ''+'') = (depth mod 2 = 0) then triangular n else - triangular n)"
proof (induction n)
  case 0
  show ?case by (simp add: run_effect_def triangular_def)
next
  case (Suc n)
  show ?case
    unfolding run_effect_Suc triangular_Suc using Suc.IH
    by (cases "ch = ord CHR ''+''"; cases "depth mod 2 = 0"; simp)
qed

lemma run_split_append:
  assumes "no_cut (ch # rest) ys" and "ch = ord CHR ''+'' \<or> ch = ord CHR ''-''"
  shows "takeWhile (\<lambda>c. c = ch) (rest @ ys) = takeWhile (\<lambda>c. c = ch) rest"
    and "dropWhile (\<lambda>c. c = ch) (rest @ ys) = dropWhile (\<lambda>c. c = ch) rest @ ys"
    and "no_cut (dropWhile (\<lambda>c. c = ch) rest) ys"
proof -
  show "no_cut (dropWhile (\<lambda>c. c = ch) rest) ys"
  proof (cases "dropWhile (\<lambda>c. c = ch) rest = []")
    case True
    then show ?thesis by (simp add: no_cut_def)
  next
    case False
    then have "rest \<noteq> []" by auto
    moreover have "last (dropWhile (\<lambda>c. c = ch) rest) = last rest"
      using False by (metis last_appendR takeWhile_dropWhile_id)
    ultimately show ?thesis using assms(1) by (auto simp: no_cut_def)
  qed
  show "takeWhile (\<lambda>c. c = ch) (rest @ ys) = takeWhile (\<lambda>c. c = ch) rest"
    and "dropWhile (\<lambda>c. c = ch) (rest @ ys) = dropWhile (\<lambda>c. c = ch) rest @ ys"
  proof -
    consider (all) "\<forall>x\<in>set rest. x = ch" | (some) "\<exists>x\<in>set rest. x \<noteq> ch" by blast
    then have "takeWhile (\<lambda>c. c = ch) (rest @ ys) = takeWhile (\<lambda>c. c = ch) rest \<and>
               dropWhile (\<lambda>c. c = ch) (rest @ ys) = dropWhile (\<lambda>c. c = ch) rest @ ys"
    proof cases
      case all
      then have "last (ch # rest) = ch" by (cases rest rule: rev_cases) auto
      with assms have "ys = [] \<or> hd ys \<noteq> ch" by (auto simp: no_cut_def)
      then have y: "takeWhile (\<lambda>c. c = ch) ys = []" "dropWhile (\<lambda>c. c = ch) ys = ys"
        by (cases ys; auto)+
      from all have r: "takeWhile (\<lambda>c. c = ch) rest = rest" "dropWhile (\<lambda>c. c = ch) rest = []"
        by (induction rest) auto
      from all have "takeWhile (\<lambda>c. c = ch) (rest @ ys) = rest @ takeWhile (\<lambda>c. c = ch) ys"
        and "dropWhile (\<lambda>c. c = ch) (rest @ ys) = dropWhile (\<lambda>c. c = ch) ys"
        by (induction rest) auto
      then show ?thesis unfolding y r by simp
    next
      case some
      then show ?thesis by auto
    qed
    then show "takeWhile (\<lambda>c. c = ch) (rest @ ys) = takeWhile (\<lambda>c. c = ch) rest"
      and "dropWhile (\<lambda>c. c = ch) (rest @ ys) = dropWhile (\<lambda>c. c = ch) rest @ ys"
      by simp_all
  qed
qed

lemma no_cut_tl:
  "no_cut (ch # rest) ys \<Longrightarrow> no_cut rest ys"
  by (cases rest) (auto simp: no_cut_def)

lemma literal_loop_append:
  "no_cut xs ys \<Longrightarrow>
   literal_loop (xs @ ys) depth m ov = then_loop (literal_loop xs depth m ov) ys depth"
proof (induction xs depth m ov rule: literal_loop.induct)
  case (1 depth m ov)
  show ?case by (simp add: then_loop_def)
next
  case (2 ch rest depth m ov)
  note nc = no_cut_tl [OF "2.prems"]
  show ?case
  proof (cases "ch = ord CHR ''+'' \<or> ch = ord CHR ''-''")
    case True
    note rs = run_split_append [OF "2.prems" True]
    show ?thesis
      using True rs "2.IH"(1) [OF True refl refl _ _ rs(3)]
      by (auto simp: then_loop_def Let_def split: sum.splits)
  next
    case False
    then show ?thesis
      using "2.IH"(2-) nc
      by (auto simp: then_loop_def split: sum.splits list.splits)
  qed
qed


lemma literal_loop_run:
  assumes "ch = ord CHR ''+'' \<or> ch = ord CHR ''-''"
    and "post = [] \<or> hd post \<noteq> ch"
    and "tape_index (tape m) (pointer m) = Some k"
  shows "literal_loop (replicate (Suc n) ch @ post) depth m ov =
         literal_loop post depth
           (m\<lparr>tape := (tape m)[k := (tape m ! k + run_effect ch depth (Suc n)) mod 256]\<rparr>) ov"
proof -
  from assms(2) have "takeWhile (\<lambda>c. c = ch) post = []"
    and "dropWhile (\<lambda>c. c = ch) post = post"
    by (cases post; auto)+
  then have "takeWhile (\<lambda>c. c = ch) (replicate n ch @ post) = replicate n ch"
    and "dropWhile (\<lambda>c. c = ch) (replicate n ch @ post) = post"
    by (induction n) auto
  with assms(1,3) show ?thesis
    by (auto simp: cell_get_def cell_set_def Let_def)
qed

text \<open>In a machine that satisfies the invariant, \<open>self.tape[self.pointer]\<close> is the cell
  at index \<open>pointer\<close>.\<close>

lemma machine_ok_tape_index:
  "machine_ok m \<Longrightarrow> tape_index (tape m) (pointer m) = Some (nat (pointer m))"
  by (simp add: machine_ok_def tape_index_def)

text \<open>
  Claim C1.  In a literal executed at depth \<open>depth\<close>, a maximal run of \<open>N \<ge> 1\<close> equal
  characters \<open>+\<close> (or \<open>-\<close>), reached after the part \<open>pre\<close> of the literal has been executed
  and has left the machine \<open>m1\<close> (128 cells, pointer in range), changes the cell at index
  \<open>pointer m1\<close>, the cell under the pointer, by the triangular sum \<open>N(N+1)/2\<close> modulo 256
  and changes nothing else, and the loop goes on after the run: at even depth \<open>+\<close> adds the
  sum and \<open>-\<close> subtracts it, at odd depth \<open>+\<close> subtracts it and \<open>-\<close> adds it.
\<close>

theorem plus_minus_run_triangular:
  assumes "ch = ord CHR ''+'' \<or> ch = ord CHR ''-''"
    and "0 < N"
    and "pre = [] \<or> last pre \<noteq> ch"
    and "post = [] \<or> hd post \<noteq> ch"
    and "literal_loop pre depth m 0 = Inr (m1, ov1)"
    and "machine_ok m1"
  shows "execute_literal (pre @ replicate N ch @ post) depth m =
         literal_loop post depth
           (m1\<lparr>tape := (tape m1)[nat (pointer m1) :=
              (tape m1 ! nat (pointer m1) +
                 (if depth mod 2 = 0
                  then (if ch = ord CHR ''+'' then triangular N else - triangular N)
                  else (if ch = ord CHR ''+'' then - triangular N else triangular N)))
              mod 256]\<rparr>) ov1"
proof -
  from assms(2) obtain n where N: "N = Suc n" by (cases N) auto
  note cell = machine_ok_tape_index [OF assms(6)]
  have "no_cut pre (replicate N ch @ post)"
    using assms(3) N by (auto simp: no_cut_def)
  then have "execute_literal (pre @ replicate N ch @ post) depth m =
             literal_loop (replicate N ch @ post) depth m1 ov1"
    unfolding execute_literal_def using assms(5)
    by (simp add: literal_loop_append then_loop_def)
  also have "\<dots> = literal_loop post depth
           (m1\<lparr>tape := (tape m1)[nat (pointer m1) :=
              (tape m1 ! nat (pointer m1) + run_effect ch depth N) mod 256]\<rparr>) ov1"
    unfolding N by (rule literal_loop_run [OF assms(1) assms(4) cell])
  finally show ?thesis
    by (simp add: run_effect_triangular)
qed

text \<open>With the pointer at cell 5 and at depth 1, eight \<open>-\<close> on a zero cell add 36 to cell 5,
  and \<open>.\<close> prints the character with code 36; \<open>^\<close> at odd depth gives override \<open>-1\<close>.\<close>

theorem plus_minus_run_triangular_witness:
  "machine_ok ((init_machine [])\<lparr>pointer := 5\<rparr>) \<and>
   execute_literal (py_str ''^'' @ replicate 8 (ord CHR ''-'') @ py_str ''.'') 1
       ((init_machine [])\<lparr>pointer := 5\<rparr>) =
     Inr ((init_machine [])\<lparr>pointer := 5, tape := (replicate 128 0)[5 := 36],
            stdout := py_str ''$''\<rparr>, - 1)"
proof -
  let ?m = "(init_machine [])\<lparr>pointer := 5\<rparr>"
  have ok: "machine_ok ?m"
    by (simp add: machine_ok_def init_machine_def)
  have pre: "literal_loop (py_str ''^'') 1 ?m 0 = Inr (?m, - 1)"
    by (simp add: py_str_def ord_def)
  have "execute_literal (py_str ''^'' @ replicate 8 (ord CHR ''-'') @ py_str ''.'') 1 ?m =
        literal_loop (py_str ''.'') 1 (?m\<lparr>tape := (replicate 128 0)[5 := 36]\<rparr>) (- 1)"
    using plus_minus_run_triangular
            [of "ord CHR ''-''" 8 "py_str ''^''" "py_str ''.''" 1 ?m ?m "- 1", OF _ _ _ _ pre ok]
    by (simp add: py_str_def ord_def triangular_def init_machine_def)
  also have "\<dots> = Inr ((init_machine [])\<lparr>pointer := 5, tape := (replicate 128 0)[5 := 36],
                            stdout := py_str ''$''\<rparr>, - 1)"
    by (simp add: py_str_def ord_def init_machine_def cell_get_def tape_index_def)
  finally show ?thesis using ok by simp
qed

section \<open>The parser: an unterminated block\<close>

text \<open>
  Claim C8.  A block whose closing marker is missing makes parsing fail, and the error is
  meant to report where the block starts.  For the source \<open>(< +\<close>, whose only block starts
  at index 0, the parser fails with the missing-closing-token error, and the index it
  reports is 4, the length of the source, where the scan stopped.
\<close>

theorem missing_closing_reports_end_index:
  "parse_program (py_str ''(< +'') = Inl (MissingClosingToken (py_str ''>)'') 4)"
  by code_simp

section \<open>The machine state stays in range\<close>

lemma machine_ok_init: "machine_ok (init_machine inp)"
  by (simp add: machine_ok_def init_machine_def)

lemma cell_set_ok:
  assumes "machine_ok m" and "0 \<le> v" and "v \<le> 255" and "cell_set m v = Inr m'"
  shows "machine_ok m'"
proof -
  from assms(4) obtain k where m': "m' = m\<lparr>tape := (tape m)[k := v]\<rparr>"
    by (auto simp: cell_set_def split: option.splits)
  have "set ((tape m)[k := v]) \<subseteq> insert v (set (tape m))"
    by (rule set_update_subset_insert)
  with assms(1-3) show ?thesis unfolding m' machine_ok_def by auto
qed

lemma cell_set_Inl: "cell_set m v = Inl (e, m') \<Longrightarrow> m' = m"
  by (auto simp: cell_set_def split: option.splits)

lemma cell_get_Inl: "cell_get m = Inl (e, m') \<Longrightarrow> m' = m"
  by (auto simp: cell_get_def split: option.splits)

lemma machine_ok_io:
  "machine_ok (m\<lparr>stdout := out\<rparr>) = machine_ok m"
  "machine_ok (m\<lparr>stdin := inp\<rparr>) = machine_ok m"
  "machine_ok (m\<lparr>instruction_counter := n\<rparr>) = machine_ok m"
  by (simp_all add: machine_ok_def)

lemma literal_loop_ok:
  "machine_ok m \<Longrightarrow> machine_ok (state_of_literal (literal_loop literal depth m ov))"
proof (induction literal depth m ov rule: literal_loop.induct)
  case (1 depth m ov)
  then show ?case by (simp add: state_of_literal_def)
next
  case (2 ch rest depth m ov)
  show ?case
  proof (cases "ch = ord CHR ''+'' \<or> ch = ord CHR ''-''")
    case True
    show ?thesis
    proof (cases "cell_get m")
      case (Inl e)
      with True "2.prems" show ?thesis
        by (cases e) (auto simp: state_of_literal_def Let_def dest: cell_get_Inl)
    next
      case (Inr v)
      let ?v = "(v + run_effect ch depth (1 + length (takeWhile (\<lambda>c. c = ch) rest))) mod 256"
      show ?thesis
      proof (cases "cell_set m ?v")
        case (Inl e)
        with True Inr "2.prems" show ?thesis
          by (cases e) (auto simp: state_of_literal_def Let_def dest: cell_set_Inl)
      next
        case (Inr m')
        have "machine_ok m'"
          by (rule cell_set_ok [OF "2.prems" _ _ Inr]) simp_all
        from "2.IH"(1) [OF True refl refl \<open>cell_get m = Inr v\<close> Inr this]
        show ?thesis using True \<open>cell_get m = Inr v\<close> Inr by (simp add: Let_def)
      qed
    qed
  next
    case nrun: False
    show ?thesis
    proof (cases "ch = ord CHR ''^'' \<or> ch = ord CHR ''v''")
      case True
      with nrun "2.IH"(2,3) "2.prems" show ?thesis by auto
    next
      case nptr: False
      show ?thesis
      proof (cases "ch = ord CHR ''.''")
        case True
        show ?thesis
        proof (cases "cell_get m")
          case (Inl e)
          with True nrun nptr "2.prems" show ?thesis
            by (cases e) (auto simp: state_of_literal_def dest: cell_get_Inl)
        next
          case (Inr v)
          with True nrun nptr "2.prems" "2.IH"(4) [OF nrun nptr True Inr] show ?thesis
            by (auto simp: state_of_literal_def machine_ok_io)
        qed
      next
        case ndot: False
        show ?thesis
        proof (cases "ch = ord CHR '',''")
          case True
          show ?thesis
          proof (cases "stdin m")
            case Nil
            with True nrun nptr ndot "2.prems" show ?thesis
              by (simp add: state_of_literal_def)
          next
            case (Cons inp unread)
            show ?thesis
            proof (cases "cell_set (m\<lparr>stdin := unread\<rparr>) (int inp mod 256)")
              case (Inl e)
              with True nrun nptr ndot Cons "2.prems" show ?thesis
                by (cases e) (auto simp: state_of_literal_def machine_ok_io dest: cell_set_Inl)
            next
              case (Inr m')
              have "machine_ok (m\<lparr>stdin := unread\<rparr>)"
                using "2.prems" by (simp add: machine_ok_io)
              then have "machine_ok m'"
                by (rule cell_set_ok [OF _ _ _ Inr]) simp_all
              from "2.IH"(5) [OF nrun nptr ndot True Cons Inr this]
              show ?thesis using True nrun nptr ndot Cons Inr by simp
            qed
          qed
        next
          case ncomma: False
          show ?thesis
          proof (cases "ch = ord CHR ''#''")
            case True
            show ?thesis
            proof (cases "cell_set m 0")
              case (Inl e)
              with True nrun nptr ndot ncomma "2.prems" show ?thesis
                by (cases e) (auto simp: state_of_literal_def dest: cell_set_Inl)
            next
              case (Inr m')
              have "machine_ok m'"
                by (rule cell_set_ok [OF "2.prems" _ _ Inr]) simp_all
              from "2.IH"(6) [OF nrun nptr ndot ncomma True Inr this]
              show ?thesis using True nrun nptr ndot ncomma Inr by simp
            qed
          next
            case False
            with nrun nptr ndot ncomma "2.IH"(7) "2.prems" show ?thesis
              by (auto simp: state_of_literal_def)
          qed
        qed
      qed
    qed
  qed
qed

lemma mod_128_range: "0 \<le> (x::int) mod 128 \<and> x mod 128 \<le> 127"
  using pos_mod_bound [of 128 x] by simp

lemma apply_pointer_movement_range:
  "0 \<le> pointer (apply_pointer_movement override m) \<and>
   pointer (apply_pointer_movement override m) \<le> 127"
  by (simp add: apply_pointer_movement_def mod_128_range)

lemma apply_pointer_movement_ok:
  "machine_ok m \<Longrightarrow> machine_ok (apply_pointer_movement override m)"
  by (simp add: apply_pointer_movement_def machine_ok_def mod_128_range)

lemma finish_block_ok:
  "machine_ok (state_of_literal r) \<Longrightarrow> machine_ok (state_of (finish_block r))"
  by (auto simp: finish_block_def state_of_def state_of_literal_def machine_ok_io
        apply_pointer_movement_ok split: sum.splits)

lemma execute_ok:
  "machine_ok m \<Longrightarrow> machine_ok (state_of (execute_block b depth m))"
  "machine_ok m \<Longrightarrow> machine_ok (state_of_literal (execute_items its depth m ov))"
proof (induction b depth m and its depth m ov rule: execute_block_execute_items.induct)
  case (1 bt its depth m)
  have skip: "machine_ok (apply_pointer_movement 0
                 (m\<lparr>instruction_counter := instruction_counter m + 1\<rparr>))"
    using "1.prems" by (simp add: apply_pointer_movement_ok machine_ok_io)
  show ?case
  proof (cases "bt = Conditional")
    case True
    show ?thesis
    proof (cases "cell_get m")
      case (Inl e)
      with True "1.prems" show ?thesis
        by (cases e) (auto simp: state_of_def dest: cell_get_Inl)
    next
      case (Inr v)
      show ?thesis
      proof (cases "v = 0")
        case True
        with \<open>bt = Conditional\<close> Inr skip show ?thesis by (simp add: state_of_def)
      next
        case False
        from "1.IH"(1) [OF \<open>bt = Conditional\<close> Inr False "1.prems"]
        show ?thesis using \<open>bt = Conditional\<close> Inr False by (simp add: finish_block_ok)
      qed
    qed
  next
    case False
    from "1.IH"(2) [OF False "1.prems"] show ?thesis using False by (simp add: finish_block_ok)
  qed
next
  case (2 depth m ov)
  then show ?case by (simp add: state_of_literal_def)
next
  case (3 literal its depth m ov)
  from literal_loop_ok [OF "3.prems"]
  have lit: "machine_ok (state_of_literal (execute_literal literal depth m))"
    by (simp add: execute_literal_def)
  show ?case
  proof (cases "execute_literal literal depth m")
    case (Inl e)
    with lit show ?thesis by (cases e) (simp add: state_of_literal_def)
  next
    case (Inr r)
    obtain m' override where r: "r = (m', override)" by (cases r)
    with Inr lit have "machine_ok m'" by (simp add: state_of_literal_def)
    from "3.IH" [OF Inr r [symmetric] this] show ?thesis using Inr r by simp
  qed
next
  case (4 b its depth m ov)
  note blk = "4.IH"(1) [OF "4.prems"]
  show ?case
  proof (cases "execute_block b (depth + 1) m")
    case (Inl e)
    with blk show ?thesis by (cases e) (simp add: state_of_def state_of_literal_def)
  next
    case (Inr m')
    with blk have "machine_ok m'" by (simp add: state_of_def)
    from "4.IH"(2) [OF Inr this] show ?thesis using Inr by simp
  qed
qed

lemma run_blocks_ok:
  "machine_ok m \<Longrightarrow> machine_ok (state_of (run_blocks bs m))"
proof (induction bs arbitrary: m)
  case Nil
  then show ?case by (simp add: state_of_def)
next
  case (Cons b bs)
  note blk = execute_ok(1) [OF Cons.prems, of b 0]
  show ?case
  proof (cases "execute_block b 0 m")
    case (Inl e)
    with blk show ?thesis by (cases e) (simp add: state_of_def)
  next
    case (Inr m')
    with blk have "machine_ok m'" by (simp add: state_of_def)
    from Cons.IH [OF this] show ?thesis using Inr by simp
  qed
qed

text \<open>
  Claim C3.  The initial machine has every cell in \<open>[0,255]\<close> and the pointer in
  \<open>[0,127]\<close>, and so has the machine after any run, finished or failed.  Each operation
  keeps this: executing a literal, moving the pointer, executing a block and running a
  list of blocks, in the state they return or in the state where they raise.  The pointer
  movement leaves the pointer in \<open>[0,127]\<close> for every override, of any size and sign, from
  any pointer.
\<close>

theorem cells_and_pointer_stay_in_range:
  "machine_ok (init_machine inp) \<and>
   machine_ok (state_of (run blocks inp)) \<and>
   (0 \<le> pointer (apply_pointer_movement override m') \<and>
    pointer (apply_pointer_movement override m') \<le> 127) \<and>
   (machine_ok m \<longrightarrow>
      machine_ok (state_of_literal (execute_literal literal depth m)) \<and>
      machine_ok (apply_pointer_movement override m) \<and>
      machine_ok (state_of (execute_block b depth m)) \<and>
      machine_ok (state_of (run_blocks bs m)))"
  by (simp add: machine_ok_init run_def run_blocks_ok execute_ok(1) literal_loop_ok
        execute_literal_def apply_pointer_movement_ok apply_pointer_movement_range)

text \<open>A block that takes cell 0 from 0 to 255 and moves the pointer by its override, and a
  pointer movement with override \<open>-200\<close>.\<close>

theorem cells_and_pointer_stay_in_range_witness:
  "machine_ok (init_machine []) \<and>
   state_of (execute_block (Block Normal [Literal (py_str ''-^'')]) 0 (init_machine [])) =
     (init_machine [])\<lparr>tape := (tape (init_machine []))[0 := 255], pointer := 1,
        instruction_counter := 1\<rparr> \<and>
   machine_ok (state_of (execute_block (Block Normal [Literal (py_str ''-^'')]) 0
                  (init_machine []))) \<and>
   pointer (apply_pointer_movement (- 200) (init_machine [])) = 56"
proof -
  have ok: "machine_ok (init_machine [])"
    by (simp add: machine_ok_def init_machine_def)
  have run: "state_of (execute_block (Block Normal [Literal (py_str ''-^'')]) 0 (init_machine [])) =
     (init_machine [])\<lparr>tape := (tape (init_machine []))[0 := 255], pointer := 1,
        instruction_counter := 1\<rparr>"
    by (simp add: py_str_def ord_def init_machine_def state_of_def finish_block_def
          execute_literal_def cell_get_def cell_set_def tape_index_def run_effect_def
          apply_pointer_movement_def)
  have "pointer (apply_pointer_movement (- 200) (init_machine [])) = 56"
    by (simp add: apply_pointer_movement_def init_machine_def)
  with ok run
    cells_and_pointer_stay_in_range
      [where m = "init_machine []" and b = "Block Normal [Literal (py_str ''-^'')]"
         and depth = 0]
  show ?thesis by simp
qed

section \<open>Blocks: counter, override and pointer movement\<close>

lemma cell_set_frame:
  "cell_set m v = Inr m' \<Longrightarrow>
     instruction_counter m' = instruction_counter m \<and> pointer m' = pointer m \<and>
     stdin m' = stdin m \<and> stdout m' = stdout m"
  by (auto simp: cell_set_def split: option.splits)

lemma cell_set_error: "cell_set m v = Inl (e, m') \<Longrightarrow> m' = m"
  by (auto simp: cell_set_def split: option.splits)

lemma cell_get_error: "cell_get m = Inl (e, m') \<Longrightarrow> m' = m"
  by (auto simp: cell_get_def split: option.splits)

lemma cell_get_cases:
  obtains (failed) "cell_get m = Inl (IndexError, m)" | (got) v where "cell_get m = Inr v"
  by (cases "tape_index (tape m) (pointer m)") (auto simp: cell_get_def)

lemma cell_set_cases:
  obtains (failed) "cell_set m v = Inl (IndexError, m)"
  | (stored) k where "cell_set m v = Inr (m\<lparr>tape := (tape m)[k := v]\<rparr>)"
  by (cases "tape_index (tape m) (pointer m)") (auto simp: cell_set_def)

lemma literal_loop_preserves:
  assumes tape: "\<And>m t. Q (m\<lparr>tape := t\<rparr>) = Q m"
    and inp: "\<And>m x. Q (m\<lparr>stdin := x\<rparr>) = Q m"
    and out: "\<And>m x. Q (m\<lparr>stdout := x\<rparr>) = Q m"
  shows "Q m \<Longrightarrow> Q (state_of_literal (literal_loop literal depth m ov))"
proof (induction "length literal" arbitrary: literal m ov rule: less_induct)
  case less
  show ?case
  proof (cases literal)
    case Nil
    with less.prems show ?thesis by (simp add: state_of_literal_def)
  next
    case (Cons ch rest)
    have IH: "Q (state_of_literal (literal_loop l depth m' ov'))"
      if "length l \<le> length rest" and "Q m'" for l m' ov'
      using less.hyps [of l m' ov'] that Cons by simp
    have IHrest: "Q (state_of_literal (literal_loop rest depth m' ov'))" if "Q m'" for m' ov'
      using IH [of rest] that by simp
    show ?thesis
    proof (cases "ch = ord CHR ''+'' \<or> ch = ord CHR ''-''")
      case True
      show ?thesis
      proof (cases rule: cell_get_cases [of m])
        case failed
        with True Cons less.prems show ?thesis by (auto simp: state_of_literal_def Let_def)
      next
        case (got v)
        let ?v = "(v + run_effect ch depth (1 + length (takeWhile (\<lambda>c. c = ch) rest))) mod 256"
        show ?thesis
        proof (cases rule: cell_set_cases [of m ?v])
          case failed
          with True Cons got less.prems show ?thesis
            by (auto simp: state_of_literal_def Let_def)
        next
          case (stored k)
          have "Q (state_of_literal (literal_loop (dropWhile (\<lambda>c. c = ch) rest) depth
                   (m\<lparr>tape := (tape m)[k := ?v]\<rparr>) ov))"
            by (rule IH) (simp_all add: length_dropWhile_le tape less.prems)
          with True Cons got stored show ?thesis by (auto simp: Let_def)
        qed
      qed
    next
      case nrun: False
      show ?thesis
      proof (cases "ch = ord CHR ''^'' \<or> ch = ord CHR ''v''")
        case True
        with nrun Cons IHrest [OF less.prems] show ?thesis by auto
      next
        case nptr: False
        show ?thesis
        proof (cases "ch = ord CHR ''.''")
          case True
          show ?thesis
          proof (cases rule: cell_get_cases [of m])
            case failed
            with True nrun nptr Cons less.prems show ?thesis
              by (simp add: state_of_literal_def)
          next
            case (got v)
            have "Q (m\<lparr>stdout := stdout m @ [nat v]\<rparr>)" using less.prems by (simp add: out)
            from IHrest [OF this] True nrun nptr Cons got less.prems show ?thesis
              by (simp add: state_of_literal_def)
          qed
        next
          case ndot: False
          show ?thesis
          proof (cases "ch = ord CHR '',''")
            case True
            show ?thesis
            proof (cases "stdin m")
              case Nil
              with True nrun nptr ndot Cons less.prems show ?thesis
                by (simp add: state_of_literal_def)
            next
              case (Cons inp unread)
              note stdin = Cons
              have q: "Q (m\<lparr>stdin := unread\<rparr>)" using less.prems by (simp add: inp)
              show ?thesis
              proof (cases rule: cell_set_cases [of "m\<lparr>stdin := unread\<rparr>" "int inp mod 256"])
                case failed
                with True nrun nptr ndot \<open>literal = ch # rest\<close> stdin q show ?thesis
                  by (simp add: state_of_literal_def)
              next
                case (stored k)
                have "Q (m\<lparr>stdin := unread, tape := (tape m)[k := int inp mod 256]\<rparr>)"
                  using q by (simp add: tape)
                from IHrest [OF this] True nrun nptr ndot \<open>literal = ch # rest\<close> stdin stored
                show ?thesis by simp
              qed
            qed
          next
            case ncomma: False
            show ?thesis
            proof (cases "ch = ord CHR ''#''")
              case True
              show ?thesis
              proof (cases rule: cell_set_cases [of m 0])
                case failed
                with True nrun nptr ndot ncomma Cons less.prems show ?thesis
                  by (simp add: state_of_literal_def)
              next
                case (stored k)
                have "Q (m\<lparr>tape := (tape m)[k := 0]\<rparr>)" using less.prems by (simp add: tape)
                from IHrest [OF this] True nrun nptr ndot ncomma Cons stored
                show ?thesis by simp
              qed
            next
              case False
              with nrun nptr ndot ncomma Cons IHrest [OF less.prems] less.prems show ?thesis
                by (auto simp: state_of_literal_def)
            qed
          qed
        qed
      qed
    qed
  qed
qed

lemma literal_loop_counter:
  "instruction_counter (state_of_literal (literal_loop literal depth m ov)) =
     instruction_counter m"
  using literal_loop_preserves [of "\<lambda>x. instruction_counter x = instruction_counter m" m]
  by simp

lemma literal_loop_pointer:
  "pointer (state_of_literal (literal_loop literal depth m ov)) = pointer m"
  using literal_loop_preserves [of "\<lambda>x. pointer x = pointer m" m]
  by simp

lemma literal_override_Cons:
  "literal_override (ch # rest) depth = char_override ch depth + literal_override rest depth"
  by (simp add: literal_override_def)

lemma literal_override_dropWhile:
  assumes "char_override ch depth = 0"
  shows "literal_override (dropWhile (\<lambda>c. c = ch) rest) depth = literal_override rest depth"
proof (induction rest)
  case Nil
  show ?case by simp
next
  case (Cons a rest)
  show ?case
  proof (cases "a = ch")
    case True
    with Cons assms show ?thesis by (simp add: literal_override_Cons)
  next
    case False
    then show ?thesis by simp
  qed
qed

lemma literal_loop_override:
  "literal_loop literal depth m ov = Inr (m', ov') \<Longrightarrow>
     ov' = ov + literal_override literal depth"
proof (induction "length literal" arbitrary: literal m ov rule: less_induct)
  case less
  show ?case
  proof (cases literal)
    case Nil
    with less.prems show ?thesis by (simp add: literal_override_def)
  next
    case (Cons ch rest)
    note step = literal_override_Cons [of ch rest depth]
    have IH: "ov' = ov1 + literal_override l depth"
      if "length l \<le> length rest" and "literal_loop l depth m1 ov1 = Inr (m', ov')" for l m1 ov1
      using less.hyps [of l m1 ov1] that Cons by simp
    have IHrest: "ov' = ov1 + literal_override rest depth"
      if "literal_loop rest depth m1 ov1 = Inr (m', ov')" for m1 ov1
      using IH [of rest] that by simp
    show ?thesis
    proof (cases "ch = ord CHR ''+'' \<or> ch = ord CHR ''-''")
      case True
      then have zero: "char_override ch depth = 0"
        by (auto simp: char_override_def ord_def)
      from True less.prems Cons obtain m1
        where "literal_loop (dropWhile (\<lambda>c. c = ch) rest) depth m1 ov = Inr (m', ov')"
        by (auto simp: Let_def split: sum.splits)
      then have "ov' = ov + literal_override (dropWhile (\<lambda>c. c = ch) rest) depth"
        by (rule IH [rotated]) (simp add: length_dropWhile_le)
      with zero step Cons show ?thesis by (simp add: literal_override_dropWhile)
    next
      case nrun: False
      show ?thesis
      proof (cases "ch = ord CHR ''^''")
        case True
        with nrun less.prems Cons
        have "literal_loop rest depth m (ov + (if depth mod 2 = 0 then 1 else - 1)) = Inr (m', ov')"
          by simp
        from IHrest [OF this] True step Cons show ?thesis by (simp add: char_override_def)
      next
        case ncaret: False
        show ?thesis
        proof (cases "ch = ord CHR ''v''")
          case True
          with nrun ncaret less.prems Cons
          have "literal_loop rest depth m (ov + (if depth mod 2 = 0 then - 1 else 1)) = Inr (m', ov')"
            by simp
          from IHrest [OF this] True ncaret step Cons show ?thesis
            by (simp add: char_override_def)
        next
          case nvee: False
          from ncaret nvee have zero: "char_override ch depth = 0"
            by (simp add: char_override_def)
          from nrun ncaret nvee less.prems Cons obtain m1
            where "literal_loop rest depth m1 ov = Inr (m', ov')"
            by (auto split: sum.splits list.splits if_splits)
          from IHrest [OF this] zero step Cons show ?thesis by simp
        qed
      qed
    qed
  qed
qed

lemma execute_literal_override:
  "execute_literal literal depth m = Inr (m', override) \<Longrightarrow>
     override = literal_override literal depth"
  using literal_loop_override [of literal depth m 0 m' override]
  by (simp add: execute_literal_def)

lemma execute_literal_counter:
  "execute_literal literal depth m = Inr (m', override) \<Longrightarrow>
     instruction_counter m' = instruction_counter m"
  using literal_loop_counter [of literal depth m 0]
  by (simp add: execute_literal_def state_of_literal_def)

lemma execute_items_override:
  "execute_items its depth m ov = Inr (m', ov') \<Longrightarrow> ov' = ov + direct_override its depth"
proof (induction its arbitrary: m ov)
  case Nil
  then show ?case by simp
next
  case (Cons it its)
  show ?case
  proof (cases it)
    case (Literal literal)
    with Cons.prems obtain m1 o1
      where lit: "execute_literal literal depth m = Inr (m1, o1)"
        and rest: "execute_items its depth m1 (ov + o1) = Inr (m', ov')"
      by (auto split: sum.splits)
    from Cons.IH [OF rest] execute_literal_override [OF lit] Literal show ?thesis by simp
  next
    case (Nested b)
    with Cons.prems obtain m1
      where "execute_items its depth m1 ov = Inr (m', ov')"
      by (auto split: sum.splits)
    from Cons.IH [OF this] Nested show ?thesis by simp
  qed
qed

lemma execute_items_accumulator:
  "execute_items its depth m ov2 =
     (case execute_items its depth m ov of
        Inl e \<Rightarrow> Inl e
      | Inr (m', ov') \<Rightarrow> Inr (m', ov2 + (ov' - ov)))"
proof (induction its arbitrary: m ov ov2)
  case Nil
  show ?case by simp
next
  case (Cons it its)
  show ?case
  proof (cases it)
    case (Literal literal)
    show ?thesis
    proof (cases "execute_literal literal depth m")
      case (Inl e)
      with Literal show ?thesis by simp
    next
      case (Inr r)
      obtain m1 o1 where r: "r = (m1, o1)" by (cases r)
      from Cons.IH [of m1 "ov2 + o1" "ov + o1"] Literal Inr r show ?thesis
        by (auto split: sum.splits)
    qed
  next
    case (Nested b)
    show ?thesis
    proof (cases "execute_block b (depth + 1) m")
      case (Inl e)
      with Nested show ?thesis by simp
    next
      case (Inr m1)
      from Cons.IH [of m1 ov2 ov] Nested Inr show ?thesis by simp
    qed
  qed
qed

lemma apply_pointer_movement_frame:
  "instruction_counter (apply_pointer_movement override m) = instruction_counter m"
  "tape (apply_pointer_movement override m) = tape m"
  "stdin (apply_pointer_movement override m) = stdin m"
  "stdout (apply_pointer_movement override m) = stdout m"
  by (simp_all add: apply_pointer_movement_def)

lemma finish_block_Inr:
  "finish_block r = Inr m' \<longleftrightarrow>
     (\<exists>m1 ov. r = Inr (m1, ov) \<and>
        m' = apply_pointer_movement ov (m1\<lparr>instruction_counter := instruction_counter m1 + 1\<rparr>))"
  by (auto simp: finish_block_def split: sum.splits)

lemma execute_counter:
  "execute_block b depth m = Inr m' \<Longrightarrow>
     instruction_counter m' = instruction_counter m + blocks_visited b depth m"
  "execute_items its depth m ov = Inr (m', ov') \<Longrightarrow>
     instruction_counter m' = instruction_counter m + items_visited its depth m"
proof (induction b depth m and its depth m ov arbitrary: m' and m' ov'
       rule: execute_block_execute_items.induct)
  case (1 bt its depth m)
  show ?case
  proof (cases "bt = Conditional \<and> cell_get m = Inr 0")
    case True
    with "1.prems" show ?thesis by (auto simp: apply_pointer_movement_frame)
  next
    case False
    with "1.prems" obtain m1 ov1
      where its: "execute_items its depth m 0 = Inr (m1, ov1)"
        and m': "m' = apply_pointer_movement ov1
                        (m1\<lparr>instruction_counter := instruction_counter m1 + 1\<rparr>)"
      by (auto simp: finish_block_Inr split: if_splits sum.splits)
    show ?thesis
    proof (cases "bt = Conditional")
      case True
      with False "1.prems" obtain v where v: "cell_get m = Inr v" "v \<noteq> 0"
        by (auto split: sum.splits if_splits)
      from "1.IH"(1) [OF True v its] True v m' show ?thesis
        by (simp add: apply_pointer_movement_frame)
    next
      case False
      from "1.IH"(2) [OF False its] False m' show ?thesis
        by (simp add: apply_pointer_movement_frame)
    qed
  qed
next
  case (2 depth m ov)
  then show ?case by simp
next
  case (3 literal its depth m ov)
  from "3.prems" obtain m1 o1
    where lit: "execute_literal literal depth m = Inr (m1, o1)"
      and rest: "execute_items its depth m1 (ov + o1) = Inr (m', ov')"
    by (auto split: sum.splits)
  from "3.IH" [OF lit refl rest] execute_literal_counter [OF lit] lit show ?case by simp
next
  case (4 b its depth m ov)
  from "4.prems" obtain m1
    where blk: "execute_block b (depth + 1) m = Inr m1"
      and rest: "execute_items its depth m1 ov = Inr (m', ov')"
    by (auto split: sum.splits)
  from "4.IH"(1) [OF blk] "4.IH"(2) [OF blk rest] blk show ?case by simp
qed

lemma run_blocks_counter:
  "run_blocks bs m = Inr m' \<Longrightarrow>
     instruction_counter m' = instruction_counter m + run_visited bs m"
proof (induction bs arbitrary: m)
  case Nil
  then show ?case by simp
next
  case (Cons b bs)
  then obtain m1 where blk: "execute_block b 0 m = Inr m1"
    and rest: "run_blocks bs m1 = Inr m'"
    by (auto split: sum.splits)
  from Cons.IH [OF rest] execute_counter(1) [OF blk] blk show ?case by simp
qed

lemma visited_bounds:
  "1 \<le> blocks_visited b depth m \<and> blocks_visited b depth m \<le> block_nodes b"
  "items_visited its depth m \<le> item_nodes its"
  by (induction b depth m and its depth m rule: blocks_visited_items_visited.induct)
     (auto split: sum.splits)

lemma execute_counter_mono:
  "instruction_counter m \<le> instruction_counter (state_of (execute_block b depth m))"
  "instruction_counter m \<le> instruction_counter (state_of_literal (execute_items its depth m ov))"
proof (induction b depth m and its depth m ov rule: execute_block_execute_items.induct)
  case (1 bt its depth m)
  have fin: "instruction_counter m \<le> instruction_counter (state_of (finish_block r))"
    if "instruction_counter m \<le> instruction_counter (state_of_literal r)" for r
    using that
    by (auto simp: finish_block_def state_of_def state_of_literal_def
          apply_pointer_movement_frame split: sum.splits)
  show ?case
  proof (cases "bt = Conditional")
    case True
    show ?thesis
    proof (cases rule: cell_get_cases [of m])
      case failed
      with True show ?thesis by (simp add: state_of_def)
    next
      case (got v)
      show ?thesis
      proof (cases "v = 0")
        case True
        with \<open>bt = Conditional\<close> got show ?thesis
          by (simp add: state_of_def apply_pointer_movement_frame)
      next
        case False
        from fin [OF "1.IH"(1) [OF \<open>bt = Conditional\<close> got False]] \<open>bt = Conditional\<close> got False
        show ?thesis by simp
      qed
    qed
  next
    case False
    from fin [OF "1.IH"(2) [OF False]] False show ?thesis by simp
  qed
next
  case (2 depth m ov)
  show ?case by (simp add: state_of_literal_def)
next
  case (3 literal its depth m ov)
  have lit: "instruction_counter (state_of_literal (execute_literal literal depth m)) =
             instruction_counter m"
    by (simp add: execute_literal_def literal_loop_counter)
  show ?case
  proof (cases "execute_literal literal depth m")
    case (Inl e)
    with lit show ?thesis by (cases e) (simp add: state_of_literal_def)
  next
    case (Inr r)
    obtain m1 o1 where r: "r = (m1, o1)" by (cases r)
    from "3.IH" [OF Inr r [symmetric], of ] lit Inr r show ?thesis
      by (simp add: state_of_literal_def)
  qed
next
  case (4 b its depth m ov)
  show ?case
  proof (cases "execute_block b (depth + 1) m")
    case (Inl e)
    with "4.IH"(1) show ?thesis by (cases e) (simp add: state_of_def state_of_literal_def)
  next
    case (Inr m1)
    from "4.IH"(1) "4.IH"(2) [OF Inr] Inr show ?thesis by (simp add: state_of_def)
  qed
qed

lemma run_blocks_counter_mono:
  "instruction_counter m \<le> instruction_counter (state_of (run_blocks bs m))"
proof (induction bs arbitrary: m)
  case Nil
  show ?case by (simp add: state_of_def)
next
  case (Cons b bs)
  show ?case
  proof (cases "execute_block b 0 m")
    case (Inl e)
    with execute_counter_mono(1) [of m b 0] show ?thesis by (cases e) (simp add: state_of_def)
  next
    case (Inr m1)
    from execute_counter_mono(1) [of m b 0] Cons [of m1] Inr show ?thesis
      by (simp add: state_of_def)
  qed
qed

text \<open>
  Claim C4.  A block execution that returns has increased \<open>instruction_counter\<close> by the
  number of blocks visited during it, one for each, nested or not, skipped conditionals
  included; a run that completes ends with the counter equal to the number of blocks
  visited.  That number is at least one and at most the number of \<open>Block\<close> nodes of the
  tree.  The counter never decreases, also when the execution raises, and executing a
  literal leaves it unchanged.
\<close>

theorem counter_counts_visited_blocks:
  "(execute_block b depth m = Inr m' \<longrightarrow>
      instruction_counter m' = instruction_counter m + blocks_visited b depth m) \<and>
   (run_blocks bs m = Inr m' \<longrightarrow>
      instruction_counter m' = instruction_counter m + run_visited bs m) \<and>
   (run bs inp = Inr m' \<longrightarrow> instruction_counter m' = run_visited bs (init_machine inp)) \<and>
   1 \<le> blocks_visited b depth m \<and> blocks_visited b depth m \<le> block_nodes b \<and>
   instruction_counter m \<le> instruction_counter (state_of (execute_block b depth m)) \<and>
   instruction_counter m \<le> instruction_counter (state_of (run_blocks bs m)) \<and>
   instruction_counter (state_of_literal (execute_literal literal depth m)) =
     instruction_counter m"
proof -
  have "run bs inp = Inr m' \<longrightarrow> instruction_counter m' = run_visited bs (init_machine inp)"
    using run_blocks_counter [of bs "init_machine inp" m']
    by (simp add: run_def init_machine_def)
  then show ?thesis
    using execute_counter(1) [of b depth m m'] run_blocks_counter [of bs m m']
      visited_bounds(1) [of b depth m] execute_counter_mono(1) [of m b depth]
      run_blocks_counter_mono [of m bs] literal_loop_counter [of literal depth m 0]
    by (simp add: execute_literal_def)
qed

text \<open>A block with four items and five \<open>Block\<close> nodes, of which four are visited: the
  second conditional is skipped.\<close>

theorem counter_counts_visited_blocks_witness:
  "run visit_example [] =
     Inr ((init_machine [])\<lparr>instruction_counter := 4\<rparr>) \<and>
   run_visited visit_example (init_machine []) = 4 \<and>
   block_nodes (hd visit_example) = 5 \<and> length (items (hd visit_example)) = 4"
proof -
  have r: "run visit_example [] =
             Inr ((init_machine [])\<lparr>instruction_counter := 4\<rparr>)"
    by code_simp
  from counter_counts_visited_blocks
         [of "hd visit_example" 0 "init_machine []"
             "(init_machine [])\<lparr>instruction_counter := 4\<rparr>"
             visit_example "[]"] r
  have "run_visited visit_example (init_machine []) = 4" by simp
  moreover have "block_nodes (hd visit_example) = 5 \<and> length (items (hd visit_example)) = 4"
    by (simp add: visit_example_def)
  ultimately show ?thesis using r by simp
qed

lemma default_rule:
  "apply_pointer_movement 0 m =
     m\<lparr>pointer := (if instruction_counter m mod 2 = 1 then (pointer m - 1) mod 128
                    else (pointer m + 1) mod 128)\<rparr>"
  by (simp add: apply_pointer_movement_def)

text \<open>
  Claim C5.  A conditional block entered with the cell under the pointer equal to 0 returns
  the machine with \<open>instruction_counter\<close> increased by one and the pointer moved once by
  the default rule, and nothing else changed, whatever its items are: the tape, the output
  and the unread input are as before, and no block other than the conditional itself is
  visited.
\<close>

theorem skipped_conditional_has_no_effect:
  assumes "cell_get m = Inr 0"
  shows "execute_block (Block Conditional its) depth m =
           Inr (m\<lparr>instruction_counter := instruction_counter m + 1,
                  pointer := (if (instruction_counter m + 1) mod 2 = 1
                              then (pointer m - 1) mod 128
                              else (pointer m + 1) mod 128)\<rparr>) \<and>
         tape (state_of (execute_block (Block Conditional its) depth m)) = tape m \<and>
         stdout (state_of (execute_block (Block Conditional its) depth m)) = stdout m \<and>
         stdin (state_of (execute_block (Block Conditional its) depth m)) = stdin m \<and>
         blocks_visited (Block Conditional its) depth m = 1"
  using assms by (simp add: default_rule state_of_def)

text \<open>Scenario D of the specification.\<close>

theorem skipped_conditional_has_no_effect_witness:
  "cell_get (init_machine []) = Inr 0 \<and>
   execute_block (Block Conditional [Literal (py_str ''++++++++++'')]) 0 (init_machine []) =
     Inr ((init_machine [])\<lparr>instruction_counter := 1, pointer := 127\<rparr>)"
proof -
  have guard: "cell_get (init_machine []) = Inr 0"
    by (simp add: cell_get_def tape_index_def init_machine_def)
  from skipped_conditional_has_no_effect
         [OF guard, of "[Literal (py_str ''++++++++++'')]" 0] guard
  show ?thesis by (simp add: init_machine_def)
qed

text \<open>
  Claim C6.  The override a literal returns depends on its text and the depth only.  The
  accumulator of the item loop ends as its start value plus the overrides of the direct
  literal items, nested blocks adding nothing; the states and the errors of the loop do not
  depend on the accumulator.  A block whose body is executed moves the pointer with exactly
  the sum of the overrides of its direct literals.
\<close>

theorem block_override_is_sum_of_direct_literals:
  "(execute_literal literal depth m = Inr (m1, override) \<longrightarrow>
      override = literal_override literal depth) \<and>
   (execute_items its depth m ov = Inr (m2, ov') \<longrightarrow> ov' = ov + direct_override its depth) \<and>
   execute_items its depth m ov2 =
     (case execute_items its depth m ov of
        Inl e \<Rightarrow> Inl e
      | Inr (m3, ov3) \<Rightarrow> Inr (m3, ov2 + (ov3 - ov))) \<and>
   (execute_block (Block bt its) depth m = Inr m' \<and>
    \<not> (bt = Conditional \<and> cell_get m = Inr 0) \<longrightarrow>
      (\<exists>m4. execute_items its depth m 0 = Inr (m4, direct_override its depth) \<and>
            m' = apply_pointer_movement (direct_override its depth)
                   (m4\<lparr>instruction_counter := instruction_counter m4 + 1\<rparr>)))"
proof -
  have "\<exists>m4. execute_items its depth m 0 = Inr (m4, direct_override its depth) \<and>
            m' = apply_pointer_movement (direct_override its depth)
                   (m4\<lparr>instruction_counter := instruction_counter m4 + 1\<rparr>)"
    if run: "execute_block (Block bt its) depth m = Inr m'"
      and ns: "\<not> (bt = Conditional \<and> cell_get m = Inr 0)"
  proof -
    from run ns obtain m4 ov4
      where its: "execute_items its depth m 0 = Inr (m4, ov4)"
        and m': "m' = apply_pointer_movement ov4
                        (m4\<lparr>instruction_counter := instruction_counter m4 + 1\<rparr>)"
      by (auto simp: finish_block_Inr split: if_splits sum.splits)
    from execute_items_override [OF its] have "ov4 = direct_override its depth" by simp
    with its m' show ?thesis by blast
  qed
  then show ?thesis
    using execute_literal_override [of literal depth m m1 override]
      execute_items_override [of its depth m ov m2 ov']
      execute_items_accumulator [of its depth m ov2 ov]
    by blast
qed

text \<open>The nested block moves the pointer by its own override 3 (three \<open>v\<close> at odd depth);
  the parent then moves it by 3, the sum of its two direct literals.\<close>

theorem block_override_is_sum_of_direct_literals_witness:
  "execute_block override_example 0 (init_machine []) =
     Inr ((init_machine [])\<lparr>pointer := 6, instruction_counter := 2\<rparr>) \<and>
   direct_override (items override_example) 0 = 3 \<and>
   execute_items (items override_example) 0 (init_machine []) 0 =
     Inr ((init_machine [])\<lparr>pointer := 3, instruction_counter := 1\<rparr>, 3)"
proof -
  have r: "execute_block override_example 0 (init_machine []) =
             Inr ((init_machine [])\<lparr>pointer := 6, instruction_counter := 2\<rparr>)"
    by code_simp
  have d: "direct_override (items override_example) 0 = 3"
    by code_simp
  have g: "\<not> (Normal = Conditional \<and> cell_get (init_machine []) = Inr 0)" by simp
  from block_override_is_sum_of_direct_literals
         [of "[]" 0 "init_machine []" "init_machine []" 0 "items override_example" 0
             "init_machine []" 0 0 Normal
             "(init_machine [])\<lparr>pointer := 6, instruction_counter := 2\<rparr>"]
       r g
  obtain m4 where its: "execute_items (items override_example) 0 (init_machine []) 0 =
                       Inr (m4, direct_override (items override_example) 0)"
    and "(init_machine [])\<lparr>pointer := 6, instruction_counter := 2\<rparr> =
           apply_pointer_movement (direct_override (items override_example) 0)
             (m4\<lparr>instruction_counter := instruction_counter m4 + 1\<rparr>)"
    unfolding override_example_def by auto
  have "execute_items (items override_example) 0 (init_machine []) 0 =
          Inr ((init_machine [])\<lparr>pointer := 3, instruction_counter := 1\<rparr>, 3)"
    by code_simp
  with r d show ?thesis by simp
qed

text \<open>
  Claim C2.  A block execution that returns ends in the state reached after its items
  (the entry state, with override 0, for a skipped conditional) changed in two ways only:
  \<open>instruction_counter\<close> is one more, and the pointer has moved once.  With a non-zero
  override the pointer is \<open>(pointer + override) mod 128\<close>; with override zero it moves left
  by one when the incremented counter is odd and right by one when it is even, modulo 128.
\<close>

theorem pointer_moves_once_after_increment:
  assumes "execute_block (Block bt its) depth m = Inr m'"
  shows "\<exists>m1 ov.
           (if bt = Conditional \<and> cell_get m = Inr 0 then m1 = m \<and> ov = 0
            else execute_items its depth m 0 = Inr (m1, ov)) \<and>
           instruction_counter m' = instruction_counter m1 + 1 \<and>
           pointer m' =
             (if ov \<noteq> 0 then (pointer m1 + ov) mod 128
              else if instruction_counter m' mod 2 = 1 then (pointer m1 - 1) mod 128
              else (pointer m1 + 1) mod 128) \<and>
           tape m' = tape m1 \<and> stdin m' = stdin m1 \<and> stdout m' = stdout m1"
proof (cases "bt = Conditional \<and> cell_get m = Inr 0")
  case True
  with assms have "m' = apply_pointer_movement 0
                          (m\<lparr>instruction_counter := instruction_counter m + 1\<rparr>)"
    by simp
  with True show ?thesis
    by (intro exI [of _ m] exI [of _ 0]) (simp add: apply_pointer_movement_def)
next
  case False
  with assms obtain m1 ov
    where its: "execute_items its depth m 0 = Inr (m1, ov)"
      and m': "m' = apply_pointer_movement ov
                      (m1\<lparr>instruction_counter := instruction_counter m1 + 1\<rparr>)"
    by (auto simp: finish_block_Inr split: if_splits sum.splits)
  have c: "if bt = Conditional \<and> cell_get m = Inr 0 then m1 = m \<and> ov = 0
           else execute_items its depth m 0 = Inr (m1, ov)"
    by (subst if_not_P [OF False]) (rule its)
  have "instruction_counter m' = instruction_counter m1 + 1 \<and>
        pointer m' =
          (if ov \<noteq> 0 then (pointer m1 + ov) mod 128
           else if instruction_counter m' mod 2 = 1 then (pointer m1 - 1) mod 128
           else (pointer m1 + 1) mod 128) \<and>
        tape m' = tape m1 \<and> stdin m' = stdin m1 \<and> stdout m' = stdout m1"
    unfolding m' by (simp add: apply_pointer_movement_def)
  with c show ?thesis by blast
qed

text \<open>Scenario B of the specification (two empty blocks in sequence), and a block with
  override 3.\<close>

theorem pointer_moves_once_after_increment_witness:
  "execute_block (Block Normal []) 0 (init_machine []) =
     Inr ((init_machine [])\<lparr>pointer := 127, instruction_counter := 1\<rparr>) \<and>
   execute_block (Block Normal []) 0
       ((init_machine [])\<lparr>pointer := 127, instruction_counter := 1\<rparr>) =
     Inr ((init_machine [])\<lparr>pointer := 0, instruction_counter := 2\<rparr>) \<and>
   execute_block (Block Normal [Literal (py_str ''^^^'')]) 0 (init_machine []) =
     Inr ((init_machine [])\<lparr>pointer := 3, instruction_counter := 1\<rparr>)"
proof -
  have a: "execute_block (Block Normal []) 0 (init_machine []) =
             Inr (apply_pointer_movement 0 ((init_machine [])\<lparr>instruction_counter := 1\<rparr>))"
    by (simp add: finish_block_def init_machine_def)
  from pointer_moves_once_after_increment [OF a]
  have "pointer (apply_pointer_movement 0 ((init_machine [])\<lparr>instruction_counter := 1\<rparr>)) = 127"
    by (auto simp: init_machine_def apply_pointer_movement_frame)
  then have "apply_pointer_movement 0 ((init_machine [])\<lparr>instruction_counter := 1\<rparr>) =
        (init_machine [])\<lparr>pointer := 127, instruction_counter := 1\<rparr>"
    by (simp add: apply_pointer_movement_def init_machine_def)
  with a have "execute_block (Block Normal []) 0 (init_machine []) =
     Inr ((init_machine [])\<lparr>pointer := 127, instruction_counter := 1\<rparr>)" by simp
  moreover have "execute_block (Block Normal []) 0
       ((init_machine [])\<lparr>pointer := 127, instruction_counter := 1\<rparr>) =
     Inr ((init_machine [])\<lparr>pointer := 0, instruction_counter := 2\<rparr>)"
    by (simp add: finish_block_def init_machine_def apply_pointer_movement_def)
  moreover have "execute_block (Block Normal [Literal (py_str ''^^^'')]) 0 (init_machine []) =
     Inr ((init_machine [])\<lparr>pointer := 3, instruction_counter := 1\<rparr>)"
    by (simp add: finish_block_def init_machine_def apply_pointer_movement_def
          execute_literal_def py_str_def ord_def)
  ultimately show ?thesis by simp
qed

section \<open>Literals: whitespace\<close>

text \<open>
  Claim C7, as stated, fails.  At depth 0 on a zero cell the literal \<open>+ +\<close> is two runs of
  length one and leaves 2 in the cell; with the space removed it is one run of length two
  and leaves 3.
\<close>

theorem whitespace_between_plus_changes_effect:
  "execute_literal (py_str ''+ +'') 0 (init_machine []) \<noteq>
   execute_literal (strip_whitespace (py_str ''+ +'')) 0 (init_machine [])"
proof -
  have spaced: "execute_literal (py_str ''+ +'') 0 (init_machine []) =
          Inr ((init_machine [])\<lparr>tape := (replicate 128 0)[0 := 2]\<rparr>, 0)"
    by (simp add: execute_literal_def py_str_def ord_def isspace_def init_machine_def
          cell_get_def cell_set_def tape_index_def run_effect_def)
  have joined: "execute_literal (strip_whitespace (py_str ''+ +'')) 0 (init_machine []) =
          Inr ((init_machine [])\<lparr>tape := (replicate 128 0)[0 := 3]\<rparr>, 0)"
    by (simp add: execute_literal_def strip_whitespace_def py_str_def ord_def isspace_def
          init_machine_def cell_get_def cell_set_def tape_index_def run_effect_def)
  have "(replicate 128 (0::int))[0 := 2] ! 0 \<noteq> (replicate 128 (0::int))[0 := 3] ! 0"
    by simp
  then have "(replicate 128 (0::int))[0 := 2] \<noteq> (replicate 128 (0::int))[0 := 3]"
    by metis
  then show ?thesis unfolding spaced joined by (simp add: init_machine_def)
qed

lemma ord_values:
  "ord CHR ''+'' = 43" "ord CHR ''-'' = 45" "ord CHR ''^'' = 94" "ord CHR ''v'' = 118"
  "ord CHR ''.'' = 46" "ord CHR '','' = 44" "ord CHR ''#'' = 35"
  by (simp_all add: ord_def)

lemma isspace_not_operator:
  "isspace c \<Longrightarrow>
     c \<noteq> ord CHR ''+'' \<and> c \<noteq> ord CHR ''-'' \<and> c \<noteq> ord CHR ''^'' \<and> c \<noteq> ord CHR ''v'' \<and>
     c \<noteq> ord CHR ''.'' \<and> c \<noteq> ord CHR '','' \<and> c \<noteq> ord CHR ''#''"
  unfolding ord_values isspace_def by presburger

lemma literal_loop_skip_space:
  "isspace c \<Longrightarrow> literal_loop (c # rest) depth m ov = literal_loop rest depth m ov"
  using isspace_not_operator [of c] by simp

lemma splits_run_suffix: "splits_run ys \<Longrightarrow> splits_run (xs @ ys)"
  by (induction xs) auto

lemma strip_whitespace_dropWhile:
  "strip_whitespace (dropWhile isspace xs) = strip_whitespace xs"
  by (induction xs) (auto simp: strip_whitespace_def)

lemma dropWhile_isspace_head:
  "dropWhile isspace xs = x # ys \<Longrightarrow> strip_whitespace xs = x # strip_whitespace ys"
proof -
  assume a: "dropWhile isspace xs = x # ys"
  then have "\<not> isspace x" by (metis hd_dropWhile list.sel(1) list.distinct(1))
  with a strip_whitespace_dropWhile [of xs] show ?thesis
    by (simp add: strip_whitespace_def)
qed

lemma literal_loop_cong_tail:
  assumes "ch \<noteq> ord CHR ''+''" and "ch \<noteq> ord CHR ''-''"
    and eq: "\<And>m ov. literal_loop r1 depth m ov = literal_loop r2 depth m ov"
  shows "literal_loop (ch # r1) depth m ov = literal_loop (ch # r2) depth m ov"
proof -
  have nr: "(ch = ord CHR ''+'' \<or> ch = ord CHR ''-'') = False" using assms(1,2) by simp
  show ?thesis unfolding literal_loop.simps eq nr if_False ..
qed

lemma literal_loop_cong_run:
  assumes run: "ch = ord CHR ''+'' \<or> ch = ord CHR ''-''"
    and tw: "takeWhile (\<lambda>c. c = ch) r1 = takeWhile (\<lambda>c. c = ch) r2"
    and eq: "\<And>m ov. literal_loop (dropWhile (\<lambda>c. c = ch) r1) depth m ov =
                 literal_loop (dropWhile (\<lambda>c. c = ch) r2) depth m ov"
  shows "literal_loop (ch # r1) depth m ov = literal_loop (ch # r2) depth m ov"
proof -
  have r: "(ch = ord CHR ''+'' \<or> ch = ord CHR ''-'') = True" using run by simp
  show ?thesis unfolding literal_loop.simps tw eq r if_True ..
qed

lemma takeWhile_eq_replicate:
  "takeWhile (\<lambda>c. c = ch) rest = replicate (length (takeWhile (\<lambda>c. c = ch) rest)) ch"
  by (induction rest) auto

lemma run_then_whitespace_then_same:
  assumes run: "ch = ord CHR ''+'' \<or> ch = ord CHR ''-''"
    and ns: "\<not> splits_run (ch # rest)"
  shows "strip_whitespace (dropWhile (\<lambda>c. c = ch) rest) = [] \<or>
         hd (strip_whitespace (dropWhile (\<lambda>c. c = ch) rest)) \<noteq> ch"
proof (rule ccontr)
  let ?tail = "dropWhile (\<lambda>c. c = ch) rest"
  let ?n = "length (takeWhile (\<lambda>c. c = ch) rest)"
  assume "\<not> ?thesis"
  then obtain zs where st: "strip_whitespace ?tail = ch # zs"
    by (cases "strip_whitespace ?tail") auto
  have ne: "?tail \<noteq> []"
  proof
    assume "?tail = []"
    then have "strip_whitespace ?tail = []" by (simp only: strip_whitespace_def filter.simps)
    with st show False by simp
  qed
  then have hd: "hd ?tail \<noteq> ch" using hd_dropWhile [of "\<lambda>c. c = ch" rest] by simp
  have sp: "isspace (hd ?tail)"
  proof (rule ccontr)
    assume "\<not> isspace (hd ?tail)"
    with ne have "strip_whitespace ?tail = hd ?tail # strip_whitespace (tl ?tail)"
      by (cases ?tail) (auto simp: strip_whitespace_def)
    with st hd show False by simp
  qed
  have "dropWhile isspace ?tail \<noteq> []"
  proof
    assume "dropWhile isspace ?tail = []"
    with strip_whitespace_dropWhile [of ?tail] st show False
      by (simp add: strip_whitespace_def)
  qed
  then obtain x xs where dw: "dropWhile isspace ?tail = x # xs"
    by (cases "dropWhile isspace ?tail") auto
  from dropWhile_isspace_head [OF dw] st have "x = ch" by simp
  with run ne sp dw have "splits_run (ch # ?tail)" by simp
  then have "splits_run (replicate ?n ch @ ch # ?tail)" by (rule splits_run_suffix)
  moreover have "replicate ?n ch @ ch # ?tail = ch # rest"
  proof -
    have "replicate ?n ch @ ch # ?tail = ch # replicate ?n ch @ ?tail"
      by (simp add: replicate_append_same)
    also have "\<dots> = ch # takeWhile (\<lambda>c. c = ch) rest @ ?tail"
      using takeWhile_eq_replicate [of ch rest] by simp
    finally show ?thesis by simp
  qed
  ultimately show False using ns by simp
qed

lemma literal_loop_strip_whitespace:
  "\<not> splits_run literal \<Longrightarrow>
     literal_loop literal depth m ov = literal_loop (strip_whitespace literal) depth m ov"
proof (induction "length literal" arbitrary: literal m ov rule: less_induct)
  case less
  show ?case
  proof (cases literal)
    case Nil
    then show ?thesis by (simp add: strip_whitespace_def)
  next
    case (Cons ch rest)
    from less.prems Cons have nrest: "\<not> splits_run rest" by simp
    have IH: "literal_loop l depth m' ov' = literal_loop (strip_whitespace l) depth m' ov'"
      if "length l \<le> length rest" and "\<not> splits_run l" for l m' ov'
      using less.hyps [of l m' ov'] that Cons by simp
    show ?thesis
    proof (cases "isspace ch")
      case True
      then have "strip_whitespace (ch # rest) = strip_whitespace rest"
        by (simp add: strip_whitespace_def)
      with True IH [of rest m ov] nrest Cons show ?thesis
        by (simp only: literal_loop_skip_space) simp
    next
      case nsp: False
      then have sw: "strip_whitespace (ch # rest) = ch # strip_whitespace rest"
        by (simp add: strip_whitespace_def)
      show ?thesis
      proof (cases "ch = ord CHR ''+'' \<or> ch = ord CHR ''-''")
        case False
        have "literal_loop (ch # rest) depth m ov =
              literal_loop (ch # strip_whitespace rest) depth m ov"
        proof (rule literal_loop_cong_tail)
          show "ch \<noteq> ord CHR ''+''" and "ch \<noteq> ord CHR ''-''" using False by simp_all
          fix m' ov'
          show "literal_loop rest depth m' ov' =
                literal_loop (strip_whitespace rest) depth m' ov'"
            by (rule IH) (simp_all add: nrest)
        qed
        with sw Cons show ?thesis by (simp only:)
      next
        case True
        let ?P = "\<lambda>c. c = ch"
        let ?tail = "dropWhile ?P rest"
        have rest_eq: "takeWhile ?P rest @ ?tail = rest" by simp
        have nt: "\<not> splits_run ?tail"
        proof
          assume "splits_run ?tail"
          then have "splits_run (takeWhile ?P rest @ ?tail)" by (rule splits_run_suffix)
          with nrest show False by (simp only: takeWhile_dropWhile_id)
        qed
        have "strip_whitespace (takeWhile ?P rest) = takeWhile ?P rest"
          using nsp by (induction rest) (auto simp: strip_whitespace_def)
        moreover have "strip_whitespace (takeWhile ?P rest @ ?tail) =
                       strip_whitespace (takeWhile ?P rest) @ strip_whitespace ?tail"
          by (simp only: strip_whitespace_def filter_append)
        ultimately
        have sw_rest: "strip_whitespace rest = takeWhile ?P rest @ strip_whitespace ?tail"
          by (simp only: takeWhile_dropWhile_id)
        from run_then_whitespace_then_same [OF True] less.prems Cons
        have hd_ok: "strip_whitespace ?tail = [] \<or> hd (strip_whitespace ?tail) \<noteq> ch"
          by simp
        then have t0: "takeWhile ?P (strip_whitespace ?tail) = []"
          and d0: "dropWhile ?P (strip_whitespace ?tail) = strip_whitespace ?tail"
          by (cases "strip_whitespace ?tail"; auto)+
        have all: "\<forall>x\<in>set (takeWhile ?P rest). x = ch"
          by (auto dest: set_takeWhileD)
        have tw: "takeWhile ?P rest = takeWhile ?P (strip_whitespace rest)"
          unfolding sw_rest using all t0 by (simp add: takeWhile_append2)
        have dw: "dropWhile ?P (strip_whitespace rest) = strip_whitespace ?tail"
          unfolding sw_rest using all d0 by (simp add: dropWhile_append2)
        have "literal_loop (ch # rest) depth m ov =
              literal_loop (ch # strip_whitespace rest) depth m ov"
        proof (rule literal_loop_cong_run [OF True tw])
          fix m' ov'
          show "literal_loop ?tail depth m' ov' =
                literal_loop (dropWhile ?P (strip_whitespace rest)) depth m' ov'"
            unfolding dw by (rule IH) (simp_all add: length_dropWhile_le nt)
        qed
        with sw Cons show ?thesis by (simp only:)
      qed
    qed
  qed
qed

text \<open>
  Claim C7, amended.  A whitespace character has no effect of its own and gives no
  override, and it ends a run of \<open>+\<close> or \<open>-\<close>.  For every literal in which no whitespace
  stands between two equal run characters, at every depth and from every machine state,
  executing the literal and executing it with its whitespace removed give the same result:
  the same machine and override, or the same error in the same state.
\<close>

theorem whitespace_ignored_unless_it_splits_a_run:
  assumes "\<not> splits_run literal"
  shows "execute_literal literal depth m =
         execute_literal (strip_whitespace literal) depth m"
  using assms by (simp add: execute_literal_def literal_loop_strip_whitespace)

text \<open>A literal with whitespace before, between and after its operators.\<close>

theorem whitespace_ignored_unless_it_splits_a_run_witness:
  "\<not> splits_run (py_str '' ++ ^ - .'') \<and>
   strip_whitespace (py_str '' ++ ^ - .'') = py_str ''++^-.'' \<and>
   execute_literal (py_str '' ++ ^ - .'') 0 (init_machine []) =
   execute_literal (py_str ''++^-.'') 0 (init_machine [])"
proof -
  have a: "\<not> splits_run (py_str '' ++ ^ - .'')"
    by (simp add: py_str_def ord_def isspace_def)
  have b: "strip_whitespace (py_str '' ++ ^ - .'') = py_str ''++^-.''"
    by (simp add: strip_whitespace_def py_str_def ord_def isspace_def)
  from whitespace_ignored_unless_it_splits_a_run [OF a, of 0 "init_machine []"]
  have "execute_literal (py_str '' ++ ^ - .'') 0 (init_machine []) =
        execute_literal (py_str ''++^-.'') 0 (init_machine [])"
    by (simp only: b)
  with a b show ?thesis by (intro conjI)
qed

section \<open>Comment stripping\<close>

lemma str_find_takeWhile:
  "str_find line c =
     (if c \<in> set line then int (length (takeWhile (\<lambda>x. x \<noteq> c) line)) else - 1)"
  by (induction line) (auto simp: Let_def)

lemma strip_line_cut: "strip_line line = cut_comment line"
proof (cases "ord CHR '';'' \<in> set line")
  case True
  then have "strip_line line =
             take (length (takeWhile (\<lambda>x. x \<noteq> ord CHR '';'') line)) line"
    by (simp add: strip_line_def str_find_takeWhile)
  then show ?thesis
    unfolding cut_comment_def by (simp only: takeWhile_eq_take [symmetric])
next
  case False
  then have a: "strip_line line = line"
    by (simp add: strip_line_def str_find_takeWhile)
  from False have b: "cut_comment line = line"
    unfolding cut_comment_def by (induction line) auto
  show ?thesis by (simp only: a b)
qed

lemma cut_comment_props:
  "ord CHR '';'' \<notin> set (cut_comment line)"
  "ord CHR '';'' \<notin> set line \<Longrightarrow> cut_comment line = line"
  "set (cut_comment line) \<subseteq> set line"
  "\<exists>rest. line = cut_comment line @ rest \<and> (rest = [] \<or> hd rest = ord CHR '';'')"
proof -
  show "ord CHR '';'' \<notin> set (cut_comment line)"
    unfolding cut_comment_def by (auto dest: set_takeWhileD)
  show "ord CHR '';'' \<notin> set line \<Longrightarrow> cut_comment line = line"
    unfolding cut_comment_def by (induction line) auto
  show "set (cut_comment line) \<subseteq> set line"
    unfolding cut_comment_def by (auto dest: set_takeWhileD)
  let ?rest = "dropWhile (\<lambda>c. c \<noteq> ord CHR '';'') line"
  have "line = cut_comment line @ ?rest" unfolding cut_comment_def by simp
  moreover have "?rest = [] \<or> hd ?rest = ord CHR '';''"
    using hd_dropWhile [of "\<lambda>c. c \<noteq> ord CHR '';''" line] by blast
  ultimately show "\<exists>rest. line = cut_comment line @ rest \<and> (rest = [] \<or> hd rest = ord CHR '';'')"
    by blast
qed

lemma splitlines_from_Cons2:
  "splitlines_from (c # c' # cs) line =
     (if c = 13 \<and> c' = 10 then line # splitlines_from cs []
      else if is_line_boundary c then line # splitlines_from (c' # cs) []
      else splitlines_from (c' # cs) (line @ [c]))"
  by (rule splitlines_from.simps(3))

lemma splitlines_from_chars:
  "l \<in> set (splitlines_from source line) \<Longrightarrow> x \<in> set l \<Longrightarrow> x \<in> set source \<union> set line"
proof (induction source line arbitrary: l rule: splitlines_from.induct)
  case (1 line)
  then show ?case by (simp split: if_splits)
next
  case (2 c line)
  then show ?case by (auto split: if_splits)
next
  case (3 c c' cs line)
  show ?case
  proof (cases "c = 13 \<and> c' = 10")
    case True
    then have eq: "splitlines_from (c # c' # cs) line = line # splitlines_from cs []"
      by simp
    from "3.prems"(1) [unfolded eq] have "l = line \<or> l \<in> set (splitlines_from cs [])"
      by simp
    with "3.IH"(1) [OF True, of l] "3.prems"(2) show ?thesis by auto
  next
    case nt: False
    show ?thesis
    proof (cases "is_line_boundary c")
      case True
      with nt "3.prems" have "l = line \<or> l \<in> set (splitlines_from (c' # cs) [])"
        by (simp only: splitlines_from_Cons2 if_True if_False set_simps insert_iff)
      with "3.IH"(2) [OF nt True, of l] "3.prems"(2) show ?thesis by auto
    next
      case False
      with nt "3.prems" have "l \<in> set (splitlines_from (c' # cs) (line @ [c]))"
        by (simp only: splitlines_from_Cons2 if_False)
      with "3.IH"(3) [OF nt False, of l] "3.prems"(2) show ?thesis by auto
    qed
  qed
qed









section \<open>The empty program\<close>

lemma parse_program_loop_whitespace:
  "\<forall>c\<in>set source. isspace c \<Longrightarrow> parse_program_loop source index blocks = Inr blocks"
proof (induction source index blocks rule: parse_program_loop.induct)
  case (1 source index blocks)
  show ?case
  proof (cases "index < length source")
    case True
    with "1.prems" have sp: "isspace (source ! index)" by simp
    from "1.IH"(1) [OF True sp "1.prems"]
    have "parse_program_loop source (index + 1) blocks = Inr blocks" .
    with True sp show ?thesis
      by (subst parse_program_loop.simps) simp
  next
    case False
    then show ?thesis by (subst parse_program_loop.simps) simp
  qed
qed

lemma join_newline_chars:
  "x \<in> set (join_newline lines) \<Longrightarrow> x = newline \<or> (\<exists>l\<in>set lines. x \<in> set l)"
  by (induction lines rule: join_newline.induct) auto

lemma strip_comments_whitespace:
  assumes "\<forall>c\<in>set source. isspace c"
  shows "\<forall>c\<in>set (strip_comments source). isspace c"
proof
  fix x
  assume "x \<in> set (strip_comments source)"
  then have "x = newline \<or> (\<exists>l\<in>set (map strip_line (splitlines source)). x \<in> set l)"
    unfolding strip_comments_def by (rule join_newline_chars)
  then show "isspace x"
  proof
    assume "x = newline"
    then show ?thesis by (simp add: newline_def isspace_def)
  next
    assume "\<exists>l\<in>set (map strip_line (splitlines source)). x \<in> set l"
    then obtain line where line: "line \<in> set (splitlines_from source [])"
      and x: "x \<in> set (cut_comment line)"
      by (auto simp: strip_line_cut splitlines_def)
    from x cut_comment_props(3) [of line] have "x \<in> set line" by blast
    from splitlines_from_chars [OF line this] have "x \<in> set source" by simp
    with assms show ?thesis by blast
  qed
qed

text \<open>
  Claim C10.  A source made of whitespace characters only (the empty source too) parses
  to the empty list of blocks, before and after comment stripping.  Running the empty
  program returns, with the machine at its initial values: 128 cells equal to 0, pointer 0,
  counter 0, nothing written and nothing read.
\<close>

theorem whitespace_only_source_is_empty_program:
  assumes "\<forall>c\<in>set source. isspace c"
  shows "parse_program source = Inr [] \<and>
         parse_program (strip_comments source) = Inr [] \<and>
         run [] inp = Inr (init_machine inp) \<and>
         tape (init_machine inp) = replicate 128 0 \<and>
         pointer (init_machine inp) = 0 \<and>
         instruction_counter (init_machine inp) = 0 \<and>
         stdout (init_machine inp) = [] \<and>
         stdin (init_machine inp) = inp"
  using parse_program_loop_whitespace [OF assms, of 0 "[]"]
    parse_program_loop_whitespace [OF strip_comments_whitespace [OF assms], of 0 "[]"]
  by (simp add: parse_program_def run_def init_machine_def)

text \<open>Two spaces, a tab, a line feed, and a carriage return with line feed; and the empty
  source.\<close>

theorem whitespace_only_source_is_empty_program_witness:
  "parse_program (py_str ''  '' @ [9, 10, 13, 10]) = Inr [] \<and>
   parse_program [] = Inr [] \<and>
   run [] (py_str ''abc'') = Inr (init_machine (py_str ''abc''))"
proof -
  have ws: "\<forall>c\<in>set (py_str ''  '' @ [9, 10, 13, 10]). isspace c"
    by (simp add: py_str_def ord_def isspace_def)
  have e: "\<forall>c\<in>set ([]::pychar list). isspace c" by simp
  from whitespace_only_source_is_empty_program [OF ws, of "py_str ''abc''"]
    whitespace_only_source_is_empty_program [OF e, of "py_str ''abc''"]
  show ?thesis by simp
qed

end
